theory Spec2Isabelle
  imports Main
begin

section \<open>Python regular expressions, as far as the log pattern needs them\<close>

datatype re =
    Lit char
  | Cls "(char \<times> char) list"
  | Dot
  | Eol
  | Seq re re
  | Alt re re
  | Star re
  | StarLazy re
  | Look re
  | Grp string re

type_synonym groups = "string \<rightharpoonup> string"
type_synonym mstate = "string \<times> groups"

definition in_cls :: "(char \<times> char) list \<Rightarrow> char \<Rightarrow> bool" where
  "in_cls rs x =
     list_ex (\<lambda>r. (of_char (fst r) :: nat) \<le> of_char x \<and> (of_char x :: nat) \<le> of_char (snd r)) rs"

definition one_char :: "(char \<Rightarrow> bool) \<Rightarrow> mstate \<Rightarrow> mstate list" where
  "one_char P s = (case fst s of [] \<Rightarrow> [] | x # xs \<Rightarrow> if P x then [(xs, snd s)] else [])"

definition progress :: "mstate \<Rightarrow> mstate \<Rightarrow> bool" where
  "progress s t = (length (fst t) < length (fst s))"

primrec star_greedy :: "(mstate \<Rightarrow> mstate list) \<Rightarrow> nat \<Rightarrow> mstate \<Rightarrow> mstate list" where
  "star_greedy f 0 s = [s]"
| "star_greedy f (Suc n) s =
     concat (map (star_greedy f n) (filter (progress s) (f s))) @ [s]"

primrec star_lazy :: "(mstate \<Rightarrow> mstate list) \<Rightarrow> nat \<Rightarrow> mstate \<Rightarrow> mstate list" where
  "star_lazy f 0 s = [s]"
| "star_lazy f (Suc n) s =
     s # concat (map (star_lazy f n) (filter (progress s) (f s)))"

fun ms :: "re \<Rightarrow> mstate \<Rightarrow> mstate list" where
  "ms (Lit a) s = one_char (\<lambda>x. x = a) s"
| "ms (Cls rs) s = one_char (in_cls rs) s"
| "ms Dot s = one_char (\<lambda>x. x \<noteq> CHR 0x0A) s"
| "ms Eol s = (if fst s = [] \<or> fst s = [CHR 0x0A] then [s] else [])"
| "ms (Seq a b) s = concat (map (ms b) (ms a s))"
| "ms (Alt a b) s = ms a s @ ms b s"
| "ms (Star r) s = star_greedy (ms r) (length (fst s)) s"
| "ms (StarLazy r) s = star_lazy (ms r) (length (fst s)) s"
| "ms (Look r) s = (case ms r s of [] \<Rightarrow> [] | t # _ \<Rightarrow> [(fst s, snd t)])"
| "ms (Grp n r) s =
     map (\<lambda>t. (fst t, (snd t)(n \<mapsto> take (length (fst s) - length (fst t)) (fst s)))) (ms r s)"

definition re_match :: "re \<Rightarrow> string \<Rightarrow> groups option" where
  "re_match r line = (case ms r (line, Map.empty) of [] \<Rightarrow> None | t # _ \<Rightarrow> Some (snd t))"

text \<open>
  Modelled from the spec: the constant \<open>ANSI_ESC_SEQ_RE_DEF\<close> is imported from
  \<open>briefcase.console\<close>, which is not among the sources. The spec calls what it matches
  an ANSI escape sequence, used by log producers for colouring. It is taken to be the
  seven-bit pattern \<^verbatim>\<open>(?:\x1B[@-Z\\-_]|\x1B\[[0-?]*[ -/]*[@-~])\<close>: the escape character
  followed by one character from \<open>@\<close> to \<open>_\<close> other than \<open>[\<close>, or the escape character and
  \<open>[\<close> followed by parameter characters, intermediate characters and one final character.
  Every such sequence starts with the escape character, the only introducer that the
  lookahead of the log pattern knows.
\<close>

definition ANSI_ESC_SEQ_RE_DEF :: re where
  "ANSI_ESC_SEQ_RE_DEF =
     Alt (Seq (Lit (CHR 0x1B)) (Cls [(CHR ''@'', CHR ''Z''), (CHR 0x5C, CHR ''_'')]))
         (Seq (Lit (CHR 0x1B))
         (Seq (Lit (CHR ''[''))
         (Seq (Star (Cls [(CHR ''0'', CHR ''?'')]))
         (Seq (Star (Cls [(CHR '' '', CHR ''/'')]))
              (Cls [(CHR ''@'', CHR ''~'')])))))"

definition ANDROID_LOG_PREFIX_REGEX :: re where
  "ANDROID_LOG_PREFIX_REGEX =
     Seq (Star ANSI_ESC_SEQ_RE_DEF)
    (Seq (Cls [(CHR ''A'', CHR ''Z'')])
    (Seq (Lit (CHR ''/''))
    (Seq (Grp ''tag'' (StarLazy Dot))
    (Seq (Lit (CHR '':''))
    (Seq (Lit (CHR '' ''))
    (Seq (Grp ''content'' (Seq (StarLazy Dot) (Look (Alt (Lit (CHR 0x1B)) Eol))))
         (Star ANSI_ESC_SEQ_RE_DEF)))))))"

definition android_log_clean_filter :: "string \<Rightarrow> string \<times> bool" where
  "android_log_clean_filter line =
     (case re_match ANDROID_LOG_PREFIX_REGEX line of
        Some groups \<Rightarrow>
          (let include = (groups ''tag'' \<in> {Some ''python.stdout'', Some ''python.stderr''})
           in (the (groups ''content''), include))
      | None \<Rightarrow> (line, False))"

primrec no_grp :: "re \<Rightarrow> bool" where
  "no_grp (Lit a) = True"
| "no_grp (Cls rs) = True"
| "no_grp Dot = True"
| "no_grp Eol = True"
| "no_grp (Seq a b) = (no_grp a \<and> no_grp b)"
| "no_grp (Alt a b) = (no_grp a \<and> no_grp b)"
| "no_grp (Star r) = no_grp r"
| "no_grp (StarLazy r) = no_grp r"
| "no_grp (Look r) = no_grp r"
| "no_grp (Grp n r) = False"

definition keeps :: "(mstate \<Rightarrow> mstate list) \<Rightarrow> bool" where
  "keeps f = (\<forall>s t. t \<in> set (f s) \<longrightarrow> snd t = snd s \<and> (\<exists>u. fst s = u @ fst t))"

definition lookok :: "string \<Rightarrow> bool" where
  "lookok r = (r = [] \<or> r = [CHR 0x0A] \<or> (\<exists>xs. r = CHR 0x1B # xs))"

definition CONTENT_BODY :: re where
  "CONTENT_BODY = Seq (StarLazy Dot) (Look (Alt (Lit (CHR 0x1B)) Eol))"

definition PAT_CONTENT :: re where
  "PAT_CONTENT = Seq (Grp ''content'' CONTENT_BODY) (Star ANSI_ESC_SEQ_RE_DEF)"

definition PAT_SEP :: re where
  "PAT_SEP = Seq (Lit (CHR '':'')) (Seq (Lit (CHR '' '')) PAT_CONTENT)"

definition PAT_TAG :: re where
  "PAT_TAG = Seq (Grp ''tag'' (StarLazy Dot)) PAT_SEP"

definition PAT_LEVEL :: re where
  "PAT_LEVEL = Seq (Cls [(CHR ''A'', CHR ''Z'')]) (Seq (Lit (CHR ''/'')) PAT_TAG)"

fun has_sep :: "string \<Rightarrow> bool" where
  "has_sep (a # b # xs) = ((a = CHR '':'' \<and> b = CHR '' '') \<or> has_sep (b # xs))"
| "has_sep _ = False"

section \<open>The run command: external calls, exceptions and state\<close>

text \<open>
  The run command drives the Android SDK wrapper, the ADB wrapper, the console and the
  clock. None of them is part of the sources: each call on them is an event of the trace,
  and an environment decides what the call returns, how long it takes and whether it
  raises. The decision may depend on the whole history of calls, so a call may succeed
  once and fail later, and a keyboard interrupt may arrive during any call.
\<close>

datatype exn =
    BriefcaseCommandError string
  | KeyboardInterrupt
  | OtherError string

datatype call =
    SelectTargetDevice "string option"
  | CreateEmulator
  | VerifyAvd string
  | StartEmulator string "string list option"
  | ConsoleInfo string
  | ConsoleError string
  | ForceStopApp string
  | InstallApk string
  | Forward int int
  | Reverse int int
  | ForwardRemove int
  | ReverseRemove int
  | Datetime
  | StartApp string string "string list"
  | Pidof string
  | Sleep
  | Logcat "string option"
  | StreamAppLogs
  | LogcatTail string
  | Kill

record world =
  trace :: "call list"
  clock :: int
  forwards :: "(int \<times> int) set"
  reverses :: "(int \<times> int) set"

record env =
  fault :: "call list \<Rightarrow> call \<Rightarrow> exn option"
  elapsed :: "call list \<Rightarrow> call \<Rightarrow> int"
  target :: "string option \<times> string option \<times> string option"
  new_avd :: string
  started :: "string \<times> string"
  device_time :: string
  pidof_ret :: "call list \<Rightarrow> string option"

record app_config =
  app_name :: string
  package_name :: string
  app_module_name :: string
  test_mode :: bool
  bundle_path :: string

type_synonym 'a prog = "world \<Rightarrow> (exn + 'a) \<times> world"

definition ret :: "'a \<Rightarrow> 'a prog" where
  "ret x w = (Inr x, w)"

definition raise :: "exn \<Rightarrow> 'a prog" where
  "raise x w = (Inl x, w)"

definition bind :: "'a prog \<Rightarrow> ('a \<Rightarrow> 'b prog) \<Rightarrow> 'b prog" where
  "bind m k w = (case m w of (Inl x, w1) \<Rightarrow> (Inl x, w1) | (Inr a, w1) \<Rightarrow> k a w1)"

definition try_finally :: "'a prog \<Rightarrow> unit prog \<Rightarrow> 'a prog" where
  "try_finally body fin w =
     (case body w of (r, w1) \<Rightarrow>
        (case fin w1 of (Inl x, w2) \<Rightarrow> (Inl x, w2) | (Inr u, w2) \<Rightarrow> (r, w2)))"

primrec for_each :: "('a \<Rightarrow> unit prog) \<Rightarrow> 'a list \<Rightarrow> unit prog" where
  "for_each f [] = ret ()"
| "for_each f (x # xs) = bind (f x) (\<lambda>u. for_each f xs)"

text \<open>
  Modelled from the spec: the port tables of the device, which the ADB wrapper (not among
  the sources) changes. \<open>forward(hostPort, devicePort)\<close> and \<open>reverse(devicePort, hostPort)\<close>
  add a mapping, \<open>forwardRemove(port)\<close> and \<open>reverseRemove(port)\<close> remove the mapping of that
  port; a call that raises changes nothing.
\<close>

definition effect :: "call \<Rightarrow> world \<Rightarrow> world" where
  "effect c w =
     (case c of
        Forward h d \<Rightarrow> w\<lparr>forwards := insert (h, d) (forwards w)\<rparr>
      | Reverse d h \<Rightarrow> w\<lparr>reverses := insert (d, h) (reverses w)\<rparr>
      | ForwardRemove p \<Rightarrow> w\<lparr>forwards := Set.filter (\<lambda>m. fst m \<noteq> p) (forwards w)\<rparr>
      | ReverseRemove p \<Rightarrow> w\<lparr>reverses := Set.filter (\<lambda>m. fst m \<noteq> p) (reverses w)\<rparr>
      | _ \<Rightarrow> w)"

text \<open>
  An external call: it is recorded, it takes the time the environment gives it (the clock
  counts microseconds, a negative duration counts as none, and \<open>time.sleep(0.01)\<close> takes
  at least 10000 microseconds when it returns), and it either raises or takes effect.
\<close>

definition do_call :: "env \<Rightarrow> call \<Rightarrow> unit prog" where
  "do_call e c w =
     (case fault e (trace w) c of
        Some x \<Rightarrow> (Inl x, w\<lparr>trace := trace w @ [c], clock := clock w + max 0 (elapsed e (trace w) c)\<rparr>)
      | None \<Rightarrow>
          (Inr (), effect c (w\<lparr>trace := trace w @ [c],
                                clock := clock w + max 0 (elapsed e (trace w) c)
                                          + (if c = Sleep then 10000 else 0)\<rparr>)))"

text \<open>Console output is recorded and cannot fail.\<close>

definition say :: "call \<Rightarrow> unit prog" where
  "say c w = (Inr (), w\<lparr>trace := trace w @ [c]\<rparr>)"

definition select_target_device ::
    "env \<Rightarrow> string option \<Rightarrow> (string option \<times> string option \<times> string option) prog" where
  "select_target_device e device_or_avd =
     bind (do_call e (SelectTargetDevice device_or_avd)) (\<lambda>u. ret (target e))"

definition create_emulator :: "env \<Rightarrow> string prog" where
  "create_emulator e = bind (do_call e CreateEmulator) (\<lambda>u. ret (new_avd e))"

definition start_emulator :: "env \<Rightarrow> string \<Rightarrow> string list option \<Rightarrow> (string \<times> string) prog" where
  "start_emulator e avd extra_emulator_args =
     bind (do_call e (StartEmulator avd extra_emulator_args)) (\<lambda>u. ret (started e))"

definition adb_datetime :: "env \<Rightarrow> string prog" where
  "adb_datetime e = bind (do_call e Datetime) (\<lambda>u. ret (device_time e))"

definition adb_pidof :: "env \<Rightarrow> string \<Rightarrow> string option prog" where
  "adb_pidof e package w = bind (do_call e (Pidof package)) (\<lambda>u. ret (pidof_ret e (trace w))) w"

text \<open>Python's truth value of \<open>pid\<close>: \<open>None\<close> and the empty string are false.\<close>

definition truthy :: "string option \<Rightarrow> bool" where
  "truthy pid = (case pid of None \<Rightarrow> False | Some p \<Rightarrow> p \<noteq> [])"

text \<open>
  Lines 460 to 468: the loop that asks for the process id. \<open>fail_time\<close> is fixed before
  the loop; \<open>datetime.now()\<close> reads the clock of the world. The loop ends because every
  unsuccessful poll is followed by a sleep, which moves the clock forward.
\<close>

function poll_pid :: "env \<Rightarrow> string \<Rightarrow> int \<Rightarrow> string option \<Rightarrow> string option prog" where
  "poll_pid e package fail_time pid w =
     (if \<not> truthy pid \<and> clock w < fail_time then
        (case adb_pidof e package w of
           (Inl x, w1) \<Rightarrow> (Inl x, w1)
         | (Inr pid', w1) \<Rightarrow>
             if \<not> truthy pid' then
               (case do_call e Sleep w1 of
                  (Inl x, w2) \<Rightarrow> (Inl x, w2)
                | (Inr u, w2) \<Rightarrow> poll_pid e package fail_time pid' w2)
             else poll_pid e package fail_time pid' w1)
      else (Inr pid, w))"
  by pat_completeness auto
termination
  by (relation "measure (\<lambda>(e, package, fail_time, pid, w).
                  if truthy pid then 0 else Suc (nat (fail_time - clock w)))")
     (auto simp: adb_pidof_def do_call_def bind_def ret_def effect_def
           split: option.splits prod.splits sum.splits if_splits)

definition or_empty :: "'a list option \<Rightarrow> 'a list" where
  "or_empty xs = (case xs of None \<Rightarrow> [] | Some ys \<Rightarrow> ys)"

definition fmt :: "string option \<Rightarrow> string" where
  "fmt x = (case x of None \<Rightarrow> ''None'' | Some s \<Rightarrow> s)"

definition repr :: "string \<Rightarrow> string" where
  "repr s = CHR 0x27 # s @ [CHR 0x27]"

definition binary_path :: "app_config \<Rightarrow> string" where
  "binary_path app = bundle_path app @ ''/app/build/outputs/apk/debug/app-debug.apk''"

text \<open>
  Lines 399 to 421: the target device. \<open>select_target_device\<close>, \<open>create_emulator\<close>,
  \<open>verify_avd\<close> and \<open>start_emulator\<close> are called before the \<open>try\<close> statement.
\<close>

definition resolve_target ::
    "env \<Rightarrow> app_config \<Rightarrow> string option \<Rightarrow> string list option \<Rightarrow> (string option \<times> string option) prog" where
  "resolve_target e app device_or_avd extra_emulator_args =
     bind (select_target_device e device_or_avd) (\<lambda>(device, name, avd).
       if device = None then
         bind (case avd of
                 None \<Rightarrow> create_emulator e
               | Some a \<Rightarrow> bind (do_call e (VerifyAvd a)) (\<lambda>u. ret a)) (\<lambda>avd.
         bind (say (ConsoleInfo (''Starting emulator '' @ avd @
                 (if or_empty extra_emulator_args \<noteq> []
                  then '' (with '' @ concat (map (\<lambda>a. a @ '' '') (butlast (or_empty extra_emulator_args)))
                         @ last (or_empty extra_emulator_args) @ '')''
                  else '''') @ ''...''))) (\<lambda>u.
         bind (start_emulator e avd extra_emulator_args) (\<lambda>(device, name).
         ret (Some device, Some name))))
       else ret (device, name))"

text \<open>
  Lines 507 to 527: the port relay, a generator turned into a context manager by
  \<open>contextlib.contextmanager\<close>. Entering the \<open>with\<close> statement runs the generator up to
  \<open>yield\<close>. When the body ends normally the generator is resumed and runs the two removal
  loops. When the body raises, the exception is thrown into the generator at the \<open>yield\<close>;
  no \<open>try\<close> statement encloses the \<open>yield\<close>, so the exception leaves the generator at
  once and the removal loops do not run. A generator without a \<open>try\<close> is sequential
  composition.
\<close>

definition forward_ports_enter :: "env \<Rightarrow> int list \<Rightarrow> int list \<Rightarrow> unit prog" where
  "forward_ports_enter e fports rports =
     bind (for_each (\<lambda>port. do_call e (Forward port port)) fports) (\<lambda>u.
     for_each (\<lambda>port. do_call e (Reverse port port)) rports)"

definition forward_ports_exit :: "env \<Rightarrow> int list \<Rightarrow> int list \<Rightarrow> unit prog" where
  "forward_ports_exit e fports rports =
     bind (for_each (\<lambda>port. do_call e (ForwardRemove port)) fports) (\<lambda>u.
     for_each (\<lambda>port. do_call e (ReverseRemove port)) rports)"

definition forward_ports :: "env \<Rightarrow> int list \<Rightarrow> int list \<Rightarrow> 'a prog \<Rightarrow> 'a prog" where
  "forward_ports e fports rports body =
     bind (forward_ports_enter e fports rports) (\<lambda>u.
     bind body (\<lambda>r.
     bind (forward_ports_exit e fports rports) (\<lambda>u.
     ret r)))"

text \<open>Lines 452 to 468: the device time, the launch and the search for the process id.\<close>

definition launch :: "env \<Rightarrow> string \<Rightarrow> string list \<Rightarrow> (string \<times> string option) prog" where
  "launch e package passthrough =
     bind (adb_datetime e) (\<lambda>device_start_time.
     bind (do_call e (StartApp package ''org.beeware.android.MainActivity'' passthrough)) (\<lambda>u.
     bind (\<lambda>w. poll_pid e package (clock w + 5000000) None w) (\<lambda>pid.
     ret (device_start_time, pid))))"

text \<open>Lines 470 to 500: follow the log of the process, or show the log since the launch and fail.\<close>

definition follow_or_fail :: "env \<Rightarrow> app_config \<Rightarrow> string \<Rightarrow> string option \<Rightarrow> unit prog" where
  "follow_or_fail e app device_start_time pid =
     (if truthy pid then
        bind (say (ConsoleInfo ''Following device log output (type CTRL-C to stop log)...'')) (\<lambda>u.
        bind (do_call e (Logcat pid)) (\<lambda>u.
        do_call e StreamAppLogs))
      else
        bind (say (ConsoleError ''Unable to find PID for app'')) (\<lambda>u.
        bind (say (ConsoleError ''Logs for launch attempt follow...'')) (\<lambda>u.
        bind (say (ConsoleError (replicate 75 (CHR ''='')))) (\<lambda>u.
        bind (do_call e (LogcatTail device_start_time)) (\<lambda>u.
        raise (BriefcaseCommandError (''Problem starting app '' @ repr (app_name app))))))))"

text \<open>Lines 424 to 450: the start of the \<open>try\<close> block, up to the \<open>with\<close> statement.\<close>

definition install :: "env \<Rightarrow> app_config \<Rightarrow> string option \<Rightarrow> string option \<Rightarrow> unit prog" where
  "install e app device name =
     bind (say (ConsoleInfo (''Starting '' @ (if test_mode app then ''test suite'' else ''app'')
             @ '' on '' @ fmt name @ '' (device ID '' @ fmt device @ '')''))) (\<lambda>u.
     bind (say (ConsoleInfo ''Installing app...'')) (\<lambda>u.
     bind (do_call e (ForceStopApp (package_name app @ ''.'' @ app_module_name app))) (\<lambda>u.
     do_call e (InstallApk (binary_path app)))))"

definition run_app ::
    "env \<Rightarrow> app_config \<Rightarrow> string list \<Rightarrow> string option \<Rightarrow> string list option \<Rightarrow> bool
      \<Rightarrow> int list option \<Rightarrow> int list option \<Rightarrow> unit prog" where
  "run_app e app passthrough device_or_avd extra_emulator_args shutdown_on_exit
       forward_ports_arg reverse_ports_arg =
     bind (resolve_target e app device_or_avd extra_emulator_args) (\<lambda>(device, name).
     try_finally
       (bind (install e app device name) (\<lambda>u.
        forward_ports e (or_empty forward_ports_arg) (or_empty reverse_ports_arg)
          (bind (launch e (package_name app @ ''.'' @ app_module_name app) passthrough)
             (\<lambda>(device_start_time, pid). follow_or_fail e app device_start_time pid))))
       (if shutdown_on_exit then do_call e Kill else ret ()))"

definition world0 :: world where
  "world0 = \<lparr>trace = [], clock = 0, forwards = {}, reverses = {}\<rparr>"

definition demo_app :: app_config where
  "demo_app = \<lparr>app_name = ''helloworld'', package_name = ''com.example'',
                app_module_name = ''helloworld'', test_mode = False, bundle_path = ''build''\<rparr>"

definition env_nopid :: env where
  "env_nopid = \<lparr>fault = (\<lambda>h c. None),
                 elapsed = (\<lambda>h c. if c = Pidof ''com.example.helloworld'' then 2500000 else 1000),
                 target = (Some ''emulator-5554'', Some ''Pixel'', None),
                 new_avd = ''beePhone'', started = (''emulator-5554'', ''Pixel''),
                 device_time = ''2026-01-01 00:00:00'',
                 pidof_ret = (\<lambda>h. None)\<rparr>"

definition env_pid :: env where
  "env_pid = env_nopid\<lparr>pidof_ret := (\<lambda>h. if Pidof ''com.example.helloworld'' \<in> set h then Some ''1234'' else None)\<rparr>"

definition env_sel_fails :: env where
  "env_sel_fails = env_nopid\<lparr>fault := (\<lambda>h c. if c = SelectTargetDevice None
       then Some (BriefcaseCommandError ''no device'') else None)\<rparr>"

definition env_rm_fails :: env where
  "env_rm_fails = env_pid\<lparr>fault := (\<lambda>h c. if c = ForwardRemove 8080
       then Some (OtherError ''adb failed'') else None)\<rparr>"

text \<open>
  What the constant \<open>ANSI_ESC_SEQ_RE_DEF\<close> matches, said without the matcher: one escape
  sequence, and a run of escape sequences.
\<close>

definition is_ansi :: "string \<Rightarrow> bool" where
  "is_ansi a =
     ((\<exists>x. a = [CHR 0x1B, x] \<and> in_cls [(CHR ''@'', CHR ''Z''), (CHR 0x5C, CHR ''_'')] x) \<or>
      (\<exists>ps ims f. a = CHR 0x1B # CHR ''['' # ps @ ims @ [f]
          \<and> (\<forall>x \<in> set ps. in_cls [(CHR ''0'', CHR ''?'')] x)
          \<and> (\<forall>x \<in> set ims. in_cls [(CHR '' '', CHR ''/'')] x)
          \<and> in_cls [(CHR ''@'', CHR ''~'')] f))"

definition ansi_run :: "string \<Rightarrow> bool" where
  "ansi_run s = (\<exists>seqs. s = concat seqs \<and> (\<forall>a \<in> set seqs. is_ansi a))"

definition CSI_INTER :: re where
  "CSI_INTER = Seq (Star (Cls [(CHR '' '', CHR ''/'')])) (Cls [(CHR ''@'', CHR ''~'')])"

definition CSI_PARAMS :: re where
  "CSI_PARAMS = Seq (Star (Cls [(CHR ''0'', CHR ''?'')])) CSI_INTER"

text \<open>
  The lines that the log pattern matches, said without the matcher: a run of escape
  sequences, an uppercase letter, a slash, a tag, the separator, a content that holds no
  escape character, and then the end of the line, its final newline, or an escape character.
  Neither the tag nor the content holds a newline. What follows the content is not looked
  at beyond its first character, since the pattern is not anchored at the end.
\<close>

definition log_shape :: "string \<Rightarrow> bool" where
  "log_shape line =
     (\<exists>a l tg p post. line = a @ l # CHR ''/'' # tg @ '': '' @ p @ post
        \<and> ansi_run a \<and> in_cls [(CHR ''A'', CHR ''Z'')] l
        \<and> CHR 0x0A \<notin> set tg \<and> CHR 0x1B \<notin> set p \<and> CHR 0x0A \<notin> set p \<and> lookok post)"

lemma one_char_Nil [simp]: "one_char P ([], c) = []"
  by (simp add: one_char_def)

lemma one_char_Cons [simp]: "one_char P (x # xs, c) = (if P x then [(xs, c)] else [])"
  by (simp add: one_char_def)

lemma one_char_elem: "t \<in> set (one_char P s) \<Longrightarrow> snd t = snd s \<and> (\<exists>x. fst s = x # fst t)"
  by (cases s; cases "fst s") (auto simp: one_char_def split: if_splits)

lemma keepsD: "keeps f \<Longrightarrow> t \<in> set (f s) \<Longrightarrow> snd t = snd s \<and> (\<exists>u. fst s = u @ fst t)"
  unfolding keeps_def by blast

lemma star_greedy_keeps:
  assumes f: "keeps f"
  shows "t \<in> set (star_greedy f n s) \<Longrightarrow> snd t = snd s \<and> (\<exists>u. fst s = u @ fst t)"
proof (induction n arbitrary: s)
  case 0
  then show ?case by simp
next
  case (Suc n)
  from Suc.prems consider "t = s" | m where "m \<in> set (f s)" "t \<in> set (star_greedy f n m)"
    by auto
  then show ?case
  proof cases
    case 1
    then show ?thesis by simp
  next
    case 2
    from keepsD [OF f 2(1)] obtain u where u: "snd m = snd s" "fst s = u @ fst m" by blast
    from Suc.IH [OF 2(2)] obtain v where "snd t = snd m" "fst m = v @ fst t" by blast
    with u show ?thesis by simp
  qed
qed

lemma star_lazy_keeps:
  assumes f: "keeps f"
  shows "t \<in> set (star_lazy f n s) \<Longrightarrow> snd t = snd s \<and> (\<exists>u. fst s = u @ fst t)"
proof (induction n arbitrary: s)
  case 0
  then show ?case by simp
next
  case (Suc n)
  from Suc.prems consider "t = s" | m where "m \<in> set (f s)" "t \<in> set (star_lazy f n m)"
    by auto
  then show ?case
  proof cases
    case 1
    then show ?thesis by simp
  next
    case 2
    from keepsD [OF f 2(1)] obtain u where u: "snd m = snd s" "fst s = u @ fst m" by blast
    from Suc.IH [OF 2(2)] obtain v where "snd t = snd m" "fst m = v @ fst t" by blast
    with u show ?thesis by simp
  qed
qed

lemma no_grp_keeps: "no_grp r \<Longrightarrow> keeps (ms r)"
proof (induction r)
  case (Seq a b)
  then have a: "keeps (ms a)" and b: "keeps (ms b)" by simp_all
  show ?case unfolding keeps_def
  proof (intro allI impI)
    fix s t assume "t \<in> set (ms (Seq a b) s)"
    then obtain m where m: "m \<in> set (ms a s)" "t \<in> set (ms b m)" by auto
    from keepsD [OF a m(1)] obtain u where u: "snd m = snd s" "fst s = u @ fst m" by blast
    from keepsD [OF b m(2)] obtain v where "snd t = snd m" "fst m = v @ fst t" by blast
    with u show "snd t = snd s \<and> (\<exists>u. fst s = u @ fst t)" by simp
  qed
next
  case (Alt a b)
  then have a: "keeps (ms a)" and b: "keeps (ms b)" by simp_all
  show ?case unfolding keeps_def using keepsD [OF a] keepsD [OF b] by auto
next
  case (Star r)
  then have "keeps (ms r)" by simp
  from star_greedy_keeps [OF this] show ?case unfolding keeps_def by simp
next
  case (StarLazy r)
  then have "keeps (ms r)" by simp
  from star_lazy_keeps [OF this] show ?case unfolding keeps_def by simp
next
  case (Look r)
  then have r: "keeps (ms r)" by simp
  show ?case unfolding keeps_def
  proof (intro allI impI)
    fix s t assume t: "t \<in> set (ms (Look r) s)"
    then obtain m ms' where m: "ms r s = m # ms'" "t = (fst s, snd m)"
      by (cases "ms r s") auto
    then have "m \<in> set (ms r s)" by simp
    from keepsD [OF r this] m show "snd t = snd s \<and> (\<exists>u. fst s = u @ fst t)" by simp
  qed
next
  case (Grp n r)
  then show ?case by simp
qed (auto simp: keeps_def dest: one_char_elem split: if_splits)

lemma star_greedy_nonempty: "star_greedy f n s \<noteq> []"
  by (cases n) auto

lemma star_lazy_Dot_Nil: "ms (StarLazy Dot) ([], c) = [([], c)]"
  by simp

lemma star_lazy_Dot_Cons:
  "ms (StarLazy Dot) (x # xs, c) =
     (x # xs, c) # (if x \<noteq> CHR 0x0A then ms (StarLazy Dot) (xs, c) else [])"
  by (simp add: progress_def)

lemma ms_Look: "ms (Look (Alt (Lit (CHR 0x1B)) Eol)) (r, c) = (if lookok r then [(r, c)] else [])"
  by (cases r) (auto simp: lookok_def)

lemma cb_Nil: "ms CONTENT_BODY ([], c) = [([], c)]"
  by (simp add: CONTENT_BODY_def lookok_def)

lemma cb_Cons:
  "ms CONTENT_BODY (x # xs, c) =
     (if lookok (x # xs) then [(x # xs, c)] else []) @
     (if x \<noteq> CHR 0x0A then ms CONTENT_BODY (xs, c) else [])"
proof -
  have "ms CONTENT_BODY (x # xs, c) =
      concat (map (ms (Look (Alt (Lit (CHR 0x1B)) Eol))) (ms (StarLazy Dot) (x # xs, c)))"
    by (simp only: CONTENT_BODY_def ms.simps(5))
  also have "\<dots> = ms (Look (Alt (Lit (CHR 0x1B)) Eol)) (x # xs, c) @
      (if x \<noteq> CHR 0x0A
       then concat (map (ms (Look (Alt (Lit (CHR 0x1B)) Eol))) (ms (StarLazy Dot) (xs, c))) else [])"
    by (simp only: star_lazy_Dot_Cons list.map concat.simps if_distrib [of "map _"] if_distrib [of concat])
  also have "\<dots> = (if lookok (x # xs) then [(x # xs, c)] else []) @
     (if x \<noteq> CHR 0x0A then ms CONTENT_BODY (xs, c) else [])"
    by (simp only: ms_Look CONTENT_BODY_def ms.simps(5))
  finally show ?thesis .
qed

lemma cb_first:
  "ms CONTENT_BODY (r, c) = t # ts \<Longrightarrow>
     \<exists>p. r = p @ fst t \<and> CHR 0x1B \<notin> set p \<and> CHR 0x0A \<notin> set p \<and> lookok (fst t) \<and> snd t = c"
proof (induction r)
  case Nil
  then show ?case by (auto simp: cb_Nil lookok_def)
next
  case (Cons x xs)
  show ?case
  proof (cases "lookok (x # xs)")
    case True
    with Cons.prems have "t = (x # xs, c)" by (simp add: cb_Cons)
    with True show ?thesis by simp
  next
    case False
    with Cons.prems have x: "x \<noteq> CHR 0x0A" and m: "ms CONTENT_BODY (xs, c) = t # ts"
      by (auto simp: cb_Cons split: if_splits)
    from False have e: "x \<noteq> CHR 0x1B" by (auto simp: lookok_def)
    from Cons.IH [OF m] obtain p where
      "xs = p @ fst t" "CHR 0x1B \<notin> set p" "CHR 0x0A \<notin> set p" "lookok (fst t)" "snd t = c"
      by blast
    with x e have "x # xs = (x # p) @ fst t \<and> CHR 0x1B \<notin> set (x # p) \<and> CHR 0x0A \<notin> set (x # p)
        \<and> lookok (fst t) \<and> snd t = c"
      by simp
    then show ?thesis by blast
  qed
qed

lemma cb_no_newline:
  "CHR 0x0A \<notin> set r \<Longrightarrow>
     \<exists>ts. ms CONTENT_BODY (r, c) = (dropWhile (\<lambda>x. x \<noteq> CHR 0x1B) r, c) # ts"
proof (induction r)
  case Nil
  then show ?case by (simp add: cb_Nil)
next
  case (Cons x xs)
  show ?case
  proof (cases "x = CHR 0x1B")
    case True
    then show ?thesis by (simp add: cb_Cons lookok_def)
  next
    case False
    with Cons.prems have "\<not> lookok (x # xs)" by (auto simp: lookok_def)
    with Cons False show ?thesis by (auto simp: cb_Cons)
  qed
qed

lemma regex_split: "ANDROID_LOG_PREFIX_REGEX = Seq (Star ANSI_ESC_SEQ_RE_DEF) PAT_LEVEL"
  by (simp add: ANDROID_LOG_PREFIX_REGEX_def PAT_LEVEL_def PAT_TAG_def PAT_SEP_def
      PAT_CONTENT_def CONTENT_BODY_def)

lemma first_concat_map:
  "concat (map f xs) = y # ys \<Longrightarrow>
     \<exists>as x bs zs. xs = as @ x # bs \<and> (\<forall>a \<in> set as. f a = []) \<and> f x = y # zs"
proof (induction xs)
  case Nil
  then show ?case by simp
next
  case (Cons x xs)
  show ?case
  proof (cases "f x")
    case Nil
    with Cons.prems have "concat (map f xs) = y # ys" by simp
    from Cons.IH [OF this] obtain as x' bs zs where
      "xs = as @ x' # bs" "\<forall>a \<in> set as. f a = []" "f x' = y # zs" by blast
    with Nil have "x # xs = (x # as) @ x' # bs \<and> (\<forall>a \<in> set (x # as). f a = []) \<and> f x' = y # zs"
      by simp
    then show ?thesis by blast
  next
    case (Cons z zs)
    with Cons.prems have "f x = y # zs" by simp
    then have "x # xs = [] @ x # xs \<and> (\<forall>a \<in> set []. f a = []) \<and> f x = y # zs" by simp
    then show ?thesis by blast
  qed
qed

lemma ansi_no_grp: "no_grp (Star ANSI_ESC_SEQ_RE_DEF)"
  by (simp add: ANSI_ESC_SEQ_RE_DEF_def)

lemma ansi_star_keeps:
  "t \<in> set (ms (Star ANSI_ESC_SEQ_RE_DEF) s) \<Longrightarrow> snd t = snd s \<and> (\<exists>u. fst s = u @ fst t)"
  using keepsD [OF no_grp_keeps [OF ansi_no_grp]] .

lemma ansi_star_first: "\<exists>z zs. ms (Star ANSI_ESC_SEQ_RE_DEF) s = z # zs \<and> snd z = snd s"
proof -
  have "ms (Star ANSI_ESC_SEQ_RE_DEF) s \<noteq> []"
    by (simp only: ms.simps star_greedy_nonempty not_False_eq_True)
  then obtain z zs where z: "ms (Star ANSI_ESC_SEQ_RE_DEF) s = z # zs"
    by (cases "ms (Star ANSI_ESC_SEQ_RE_DEF) s") auto
  then have "z \<in> set (ms (Star ANSI_ESC_SEQ_RE_DEF) s)" by simp
  from ansi_star_keeps [OF this] z show ?thesis by blast
qed

lemma pat_content_unfold:
  "ms PAT_CONTENT (r, c) =
     concat (map (\<lambda>t. ms (Star ANSI_ESC_SEQ_RE_DEF)
                       (fst t, (snd t)(''content'' \<mapsto> take (length r - length (fst t)) r)))
                 (ms CONTENT_BODY (r, c)))"
  by (simp only: PAT_CONTENT_def ms.simps(5) ms.simps(10) map_map o_def fst_conv snd_conv)

lemma pat_content_empty: "ms CONTENT_BODY (r, c) = [] \<Longrightarrow> ms PAT_CONTENT (r, c) = []"
  by (simp only: pat_content_unfold list.map concat.simps)

lemma pat_content_hd:
  assumes "ms CONTENT_BODY (r, c) = t0 # ts0"
  shows "\<exists>t ts. ms PAT_CONTENT (r, c) = t # ts \<and>
           snd t = (snd t0)(''content'' \<mapsto> take (length r - length (fst t0)) r)"
proof -
  from ansi_star_first [of "(fst t0, (snd t0)(''content'' \<mapsto> take (length r - length (fst t0)) r))"]
  obtain z zs where
    z: "ms (Star ANSI_ESC_SEQ_RE_DEF)
          (fst t0, (snd t0)(''content'' \<mapsto> take (length r - length (fst t0)) r)) = z # zs"
       "snd z = (snd t0)(''content'' \<mapsto> take (length r - length (fst t0)) r)"
    by auto
  have "ms PAT_CONTENT (r, c) = z # (zs @
     concat (map (\<lambda>t. ms (Star ANSI_ESC_SEQ_RE_DEF)
                       (fst t, (snd t)(''content'' \<mapsto> take (length r - length (fst t)) r))) ts0))"
    by (simp only: pat_content_unfold assms list.map concat.simps z(1) append_Cons)
  with z(2) show ?thesis by blast
qed

lemma pat_content_first:
  assumes "ms PAT_CONTENT (r, c) = t # ts"
  shows "\<exists>p post. r = p @ post \<and> CHR 0x1B \<notin> set p \<and> CHR 0x0A \<notin> set p \<and> lookok post
           \<and> snd t = c(''content'' \<mapsto> p)"
proof (cases "ms CONTENT_BODY (r, c)")
  case Nil
  from pat_content_empty [OF this] assms show ?thesis by simp
next
  case (Cons t0 ts0)
  from pat_content_hd [OF Cons] assms
  have t: "snd t = (snd t0)(''content'' \<mapsto> take (length r - length (fst t0)) r)" by auto
  from cb_first [OF Cons] obtain p where
    p: "r = p @ fst t0" "CHR 0x1B \<notin> set p" "CHR 0x0A \<notin> set p" "lookok (fst t0)" "snd t0 = c"
    by blast
  from p(1) have "take (length r - length (fst t0)) r = p" by simp
  with t p show ?thesis by auto
qed

lemma pat_content_no_newline:
  assumes "CHR 0x0A \<notin> set r"
  shows "\<exists>t ts. ms PAT_CONTENT (r, c) = t # ts \<and>
           snd t = c(''content'' \<mapsto> takeWhile (\<lambda>x. x \<noteq> CHR 0x1B) r)"
proof -
  from cb_no_newline [OF assms, of c] obtain ts0 where
    m: "ms CONTENT_BODY (r, c) = (dropWhile (\<lambda>x. x \<noteq> CHR 0x1B) r, c) # ts0" by blast
  have "r = takeWhile (\<lambda>x. x \<noteq> CHR 0x1B) r @ dropWhile (\<lambda>x. x \<noteq> CHR 0x1B) r" by simp
  then have "length r = length (takeWhile (\<lambda>x. x \<noteq> CHR 0x1B) r) + length (dropWhile (\<lambda>x. x \<noteq> CHR 0x1B) r)"
    by (metis length_append)
  then have "length r - length (dropWhile (\<lambda>x. x \<noteq> CHR 0x1B) r)
      = length (takeWhile (\<lambda>x. x \<noteq> CHR 0x1B) r)"
    by arith
  then have "take (length r - length (dropWhile (\<lambda>x. x \<noteq> CHR 0x1B) r)) r = takeWhile (\<lambda>x. x \<noteq> CHR 0x1B) r"
    using takeWhile_eq_take [of "\<lambda>x. x \<noteq> CHR 0x1B" r] by (simp only:)
  with pat_content_hd [OF m] show ?thesis by simp
qed

lemma pat_sep_at: "ms PAT_SEP (CHR '':'' # CHR '' '' # r, c) = ms PAT_CONTENT (r, c)"
  by (simp add: PAT_SEP_def)

lemma pat_sep_other: "\<not> (\<exists>r. s = CHR '':'' # CHR '' '' # r) \<Longrightarrow> ms PAT_SEP (s, c) = []"
proof (cases s)
  case Nil
  then show ?thesis by (simp add: PAT_SEP_def)
next
  case (Cons x xs)
  assume a: "\<not> (\<exists>r. s = CHR '':'' # CHR '' '' # r)"
  show ?thesis
  proof (cases xs)
    case Nil
    with Cons show ?thesis by (simp add: PAT_SEP_def)
  next
    case (Cons y ys)
    with \<open>s = x # xs\<close> a have "x \<noteq> CHR '':'' \<or> y \<noteq> CHR '' ''" by simp
    with Cons \<open>s = x # xs\<close> show ?thesis by (auto simp: PAT_SEP_def)
  qed
qed

lemma lazy_dot_closed:
  "ms (StarLazy Dot) (s, c) =
     map (\<lambda>k. (drop k s, c)) [0..<Suc (length (takeWhile (\<lambda>x. x \<noteq> CHR 0x0A) s))]"
proof (induction s)
  case Nil
  show ?case by simp
next
  case (Cons x xs)
  show ?case
  proof (cases "x = CHR 0x0A")
    case True
    then show ?thesis by (simp only: star_lazy_Dot_Cons) simp
  next
    case False
    have "[0..<Suc (Suc (length (takeWhile (\<lambda>x. x \<noteq> CHR 0x0A) xs)))]
        = 0 # map Suc [0..<Suc (length (takeWhile (\<lambda>x. x \<noteq> CHR 0x0A) xs))]"
      by (metis map_Suc_upt upt_conv_Cons zero_less_Suc)
    with False Cons.IH show ?thesis
      by (simp only: star_lazy_Dot_Cons) (simp add: o_def del: ms.simps upt_Suc)
  qed
qed

lemma pat_tag_unfold:
  "ms PAT_TAG (s, c) =
     concat (map (\<lambda>k. ms PAT_SEP (drop k s, c(''tag'' \<mapsto> take k s)))
               [0..<Suc (length (takeWhile (\<lambda>x. x \<noteq> CHR 0x0A) s))])"
proof -
  have le: "length (takeWhile (\<lambda>x. x \<noteq> CHR 0x0A) s) \<le> length s"
    by (rule length_takeWhile_le)
  have "ms PAT_TAG (s, c) =
      concat (map (\<lambda>k. ms PAT_SEP (drop k s, c(''tag'' \<mapsto> take (length s - length (drop k s)) s)))
               [0..<Suc (length (takeWhile (\<lambda>x. x \<noteq> CHR 0x0A) s))])"
    by (simp only: PAT_TAG_def ms.simps(5) ms.simps(10) lazy_dot_closed map_map o_def fst_conv snd_conv)
  also have "\<dots> = concat (map (\<lambda>k. ms PAT_SEP (drop k s, c(''tag'' \<mapsto> take k s)))
               [0..<Suc (length (takeWhile (\<lambda>x. x \<noteq> CHR 0x0A) s))])"
  proof -
    have "map (\<lambda>k. ms PAT_SEP (drop k s, c(''tag'' \<mapsto> take (length s - length (drop k s)) s)))
               [0..<Suc (length (takeWhile (\<lambda>x. x \<noteq> CHR 0x0A) s))]
        = map (\<lambda>k. ms PAT_SEP (drop k s, c(''tag'' \<mapsto> take k s)))
               [0..<Suc (length (takeWhile (\<lambda>x. x \<noteq> CHR 0x0A) s))]"
    proof (rule map_cong [OF refl])
      fix k assume "k \<in> set [0..<Suc (length (takeWhile (\<lambda>x. x \<noteq> CHR 0x0A) s))]"
      with le have "k \<le> length s" by auto
      then have "length s - length (drop k s) = k" by simp
      then show "ms PAT_SEP (drop k s, c(''tag'' \<mapsto> take (length s - length (drop k s)) s))
          = ms PAT_SEP (drop k s, c(''tag'' \<mapsto> take k s))" by (simp only:)
    qed
    then show ?thesis by (simp only:)
  qed
  finally show ?thesis .
qed

lemma take_takeWhile_set:
  assumes "k \<le> length (takeWhile P s)"
  shows "\<forall>x \<in> set (take k s). P x"
proof -
  have "take k s = take k (takeWhile P s @ dropWhile P s)" by simp
  also have "\<dots> = take k (takeWhile P s)" using assms by (simp only: take_append) simp
  finally have "set (take k s) \<subseteq> set (takeWhile P s)" by (metis set_take_subset)
  then show ?thesis by (auto dest: set_takeWhileD)
qed

lemma pat_tag_first:
  assumes "ms PAT_TAG (s, c) = t # ts"
  shows "\<exists>tg p post. s = tg @ '': '' @ p @ post \<and> CHR 0x0A \<notin> set tg
           \<and> CHR 0x1B \<notin> set p \<and> CHR 0x0A \<notin> set p \<and> lookok post
           \<and> snd t = c(''tag'' \<mapsto> tg, ''content'' \<mapsto> p)"
proof -
  from assms first_concat_map [of "\<lambda>k. ms PAT_SEP (drop k s, c(''tag'' \<mapsto> take k s))"
      "[0..<Suc (length (takeWhile (\<lambda>x. x \<noteq> CHR 0x0A) s))]" t ts]
  obtain as k bs zs where
    k: "[0..<Suc (length (takeWhile (\<lambda>x. x \<noteq> CHR 0x0A) s))] = as @ k # bs"
       "ms PAT_SEP (drop k s, c(''tag'' \<mapsto> take k s)) = t # zs"
    unfolding pat_tag_unfold by blast
  from k(1) have "k \<in> set [0..<Suc (length (takeWhile (\<lambda>x. x \<noteq> CHR 0x0A) s))]"
    by (simp only:) simp
  then have kle: "k \<le> length (takeWhile (\<lambda>x. x \<noteq> CHR 0x0A) s)" by auto
  from take_takeWhile_set [OF kle] have nl: "CHR 0x0A \<notin> set (take k s)" by blast
  from k(2) pat_sep_other [of "drop k s"] obtain r where r: "drop k s = CHR '':'' # CHR '' '' # r"
    by fastforce
  with k(2) have "ms PAT_CONTENT (r, c(''tag'' \<mapsto> take k s)) = t # zs"
    by (simp only: pat_sep_at)
  from pat_content_first [OF this] obtain p post where
    p: "r = p @ post" "CHR 0x1B \<notin> set p" "CHR 0x0A \<notin> set p" "lookok post"
       "snd t = c(''tag'' \<mapsto> take k s, ''content'' \<mapsto> p)"
    by blast
  have "s = take k s @ drop k s" by simp
  with r p(1) have "s = take k s @ '': '' @ p @ post" by simp
  with nl p show ?thesis by blast
qed

lemma no_sep_head:
  assumes "\<not> has_sep u" "u \<noteq> []"
  shows "u @ '': '' @ rest \<noteq> CHR '':'' # CHR '' '' # r"
proof (cases u)
  case Nil
  with assms show ?thesis by simp
next
  case (Cons a v)
  show ?thesis
  proof (cases v)
    case Nil
    with Cons show ?thesis by simp
  next
    case (Cons b w)
    with \<open>u = a # v\<close> assms(1) show ?thesis by auto
  qed
qed

lemma has_sep_Cons: "has_sep xs \<Longrightarrow> has_sep (x # xs)"
  by (cases xs) auto

lemma has_sep_drop: "has_sep (drop j u) \<Longrightarrow> has_sep u"
proof (induction u arbitrary: j)
  case Nil
  then show ?case by simp
next
  case (Cons x xs)
  show ?case
  proof (cases j)
    case 0
    with Cons.prems show ?thesis by simp
  next
    case (Suc j')
    with Cons.prems have "has_sep (drop j' xs)" by simp
    from Cons.IH [OF this] show ?thesis by (rule has_sep_Cons)
  qed
qed

lemma no_sep_drop: "\<not> has_sep u \<Longrightarrow> \<not> has_sep (drop j u)"
  using has_sep_drop by blast

lemma pat_tag_exact:
  assumes ns: "\<not> has_sep tg" and nt: "CHR 0x0A \<notin> set tg" and nr: "CHR 0x0A \<notin> set rest"
  shows "\<exists>t ts. ms PAT_TAG (tg @ '': '' @ rest, c) = t # ts \<and>
           snd t = c(''tag'' \<mapsto> tg, ''content'' \<mapsto> takeWhile (\<lambda>x. x \<noteq> CHR 0x1B) rest)"
proof -
  let ?s = "tg @ '': '' @ rest"
  let ?n = "length (takeWhile (\<lambda>x. x \<noteq> CHR 0x0A) ?s)"
  let ?f = "\<lambda>k. ms PAT_SEP (drop k ?s, c(''tag'' \<mapsto> take k ?s))"
  from nt have "takeWhile (\<lambda>x. x \<noteq> CHR 0x0A) ?s = tg @ takeWhile (\<lambda>x. x \<noteq> CHR 0x0A) ('': '' @ rest)"
    by (intro takeWhile_append2) auto
  then have le: "length tg \<le> ?n" by simp
  have split: "[0..<Suc ?n] = [0..<length tg] @ length tg # [Suc (length tg)..<Suc ?n]"
  proof -
    from le have "[0..<Suc ?n] = [0..<length tg] @ [length tg..<Suc ?n]"
      using upt_add_eq_append [of 0 "length tg" "Suc ?n - length tg"] by simp
    moreover from le have "[length tg..<Suc ?n] = length tg # [Suc (length tg)..<Suc ?n]"
      by (intro upt_conv_Cons) simp
    ultimately show ?thesis by (simp only:)
  qed
  have early: "?f j = []" if "j \<in> set [0..<length tg]" for j
  proof -
    from that have j: "j < length tg" by simp
    then have d: "drop j ?s = drop j tg @ '': '' @ rest" by simp
    from j have "drop j tg \<noteq> []" by simp
    from no_sep_head [OF no_sep_drop [OF ns] this] d
    have "\<not> (\<exists>r. drop j ?s = CHR '':'' # CHR '' '' # r)" by auto
    from pat_sep_other [OF this] show ?thesis .
  qed
  then have "concat (map ?f [0..<length tg]) = []" by simp
  then have "ms PAT_TAG (?s, c) = ?f (length tg) @ concat (map ?f [Suc (length tg)..<Suc ?n])"
    by (simp only: pat_tag_unfold split map_append concat_append list.map concat.simps append_Nil)
  moreover have "?f (length tg) = ms PAT_CONTENT (rest, c(''tag'' \<mapsto> tg))"
    by (simp add: pat_sep_at del: ms.simps)
  moreover from pat_content_no_newline [OF nr, of "c(''tag'' \<mapsto> tg)"] obtain t ts where
    "ms PAT_CONTENT (rest, c(''tag'' \<mapsto> tg)) = t # ts"
    "snd t = c(''tag'' \<mapsto> tg, ''content'' \<mapsto> takeWhile (\<lambda>x. x \<noteq> CHR 0x1B) rest)"
    by blast
  ultimately show ?thesis by simp
qed

lemma pat_level_at:
  "ms PAT_LEVEL (l # CHR ''/'' # body, c) =
     (if in_cls [(CHR ''A'', CHR ''Z'')] l then ms PAT_TAG (body, c) else [])"
  by (simp add: PAT_LEVEL_def)

lemma pat_level_shape:
  assumes "ms PAT_LEVEL (s, c) \<noteq> []"
  shows "\<exists>l body. s = l # CHR ''/'' # body \<and> in_cls [(CHR ''A'', CHR ''Z'')] l"
proof (cases s)
  case Nil
  with assms show ?thesis by (simp add: PAT_LEVEL_def)
next
  case (Cons l xs)
  show ?thesis
  proof (cases xs)
    case Nil
    with Cons assms show ?thesis by (simp add: PAT_LEVEL_def split: if_splits)
  next
    case (Cons y body)
    with \<open>s = l # xs\<close> assms show ?thesis by (simp add: PAT_LEVEL_def split: if_splits)
  qed
qed

lemma upper_of_char: "in_cls [(CHR ''A'', CHR ''Z'')] l = (65 \<le> (of_char l :: nat) \<and> (of_char l :: nat) \<le> 90)"
  by (simp add: in_cls_def)

lemma ansi_at_upper:
  assumes "in_cls [(CHR ''A'', CHR ''Z'')] l"
  shows "ms ANSI_ESC_SEQ_RE_DEF (l # xs, c) = []"
proof -
  from assms have r: "65 \<le> (of_char l :: nat)" "(of_char l :: nat) \<le> 90"
    by (simp_all add: upper_of_char)
  then have "l \<noteq> CHR 0x1B" by auto
  then show ?thesis by (simp add: ANSI_ESC_SEQ_RE_DEF_def)
qed

lemma ansi_star_at_upper:
  assumes "in_cls [(CHR ''A'', CHR ''Z'')] l"
  shows "ms (Star ANSI_ESC_SEQ_RE_DEF) (l # xs, c) = [(l # xs, c)]"
  using ansi_at_upper [OF assms] by (simp del: ms.simps(1-6) ms.simps(8-10))

lemma match_shape:
  assumes "re_match ANDROID_LOG_PREFIX_REGEX line = Some g"
  shows "\<exists>a l tg p post. line = a @ l # CHR ''/'' # tg @ '': '' @ p @ post
           \<and> in_cls [(CHR ''A'', CHR ''Z'')] l \<and> CHR 0x0A \<notin> set tg
           \<and> CHR 0x1B \<notin> set p \<and> CHR 0x0A \<notin> set p \<and> lookok post
           \<and> g = [''tag'' \<mapsto> tg, ''content'' \<mapsto> p]"
proof -
  from assms obtain t ts where t: "ms ANDROID_LOG_PREFIX_REGEX (line, Map.empty) = t # ts" "g = snd t"
    by (auto simp: re_match_def split: list.splits)
  from t(1) have "concat (map (ms PAT_LEVEL) (ms (Star ANSI_ESC_SEQ_RE_DEF) (line, Map.empty))) = t # ts"
    by (simp only: regex_split ms.simps(5))
  from first_concat_map [OF this] obtain as x bs zs where
    e: "ms (Star ANSI_ESC_SEQ_RE_DEF) (line, Map.empty) = as @ x # bs"
    and x2: "ms PAT_LEVEL x = t # zs"
    by blast
  have "x \<in> set (as @ x # bs)" by simp
  then have x: "x \<in> set (ms (Star ANSI_ESC_SEQ_RE_DEF) (line, Map.empty))" "ms PAT_LEVEL x = t # zs"
    using x2 by (simp_all only: e)
  from ansi_star_keeps [OF x(1)] obtain a where a: "snd x = Map.empty" "line = a @ fst x"
    by auto
  from x(2) a(1) have lv: "ms PAT_LEVEL (fst x, Map.empty) = t # zs"
    by (metis prod.collapse)
  then have "ms PAT_LEVEL (fst x, Map.empty) \<noteq> []" by simp
  from pat_level_shape [OF this] obtain l body where
    l: "fst x = l # CHR ''/'' # body" "in_cls [(CHR ''A'', CHR ''Z'')] l" by blast
  with lv have "ms PAT_TAG (body, Map.empty) = t # zs" by (simp only: pat_level_at if_True)
  from pat_tag_first [OF this] obtain tg p post where
    p: "body = tg @ '': '' @ p @ post" "CHR 0x0A \<notin> set tg" "CHR 0x1B \<notin> set p"
       "CHR 0x0A \<notin> set p" "lookok post" "snd t = [''tag'' \<mapsto> tg, ''content'' \<mapsto> p]"
    by blast
  from a(2) l(1) p(1) have "line = a @ l # CHR ''/'' # tg @ '': '' @ p @ post" by simp
  with l(2) p t(2) show ?thesis by blast
qed

lemma match_exact:
  assumes "in_cls [(CHR ''A'', CHR ''Z'')] l" "\<not> has_sep tg" "CHR 0x0A \<notin> set tg"
    "CHR 0x0A \<notin> set rest"
  shows "re_match ANDROID_LOG_PREFIX_REGEX (l # CHR ''/'' # tg @ '': '' @ rest) =
           Some [''tag'' \<mapsto> tg, ''content'' \<mapsto> takeWhile (\<lambda>x. x \<noteq> CHR 0x1B) rest]"
proof -
  let ?line = "l # CHR ''/'' # tg @ '': '' @ rest"
  have "ms ANDROID_LOG_PREFIX_REGEX (?line, Map.empty) = ms PAT_TAG (tg @ '': '' @ rest, Map.empty)"
    by (simp only: regex_split ms.simps(5) ansi_star_at_upper [OF assms(1)] list.map concat.simps
        append_Nil2 pat_level_at assms(1) if_True)
  with pat_tag_exact [OF assms(2-4), of Map.empty] show ?thesis
    by (auto simp: re_match_def)
qed

text \<open>
  Claim C10. The tag is matched lazily. For a line \<open>L/tag: rest\<close> whose level \<open>L\<close> is an
  uppercase letter and whose \<open>tag\<close> holds no separator \<open>: \<close> (so the separator written
  after it is the first one of the line), the captured tag is \<open>tag\<close> and the content is
  everything after that separator up to the first escape character, whatever further
  separators \<open>rest\<close> holds. Lines are taken without a newline, as the log stream delivers
  them. The line \<open>I/python.stdout: a: b\<close> classifies to \<open>a: b\<close>, included.
\<close>

theorem tag_is_lazy:
  "(in_cls [(CHR ''A'', CHR ''Z'')] l \<and> \<not> has_sep tag \<and> CHR 0x0A \<notin> set tag
      \<and> CHR 0x0A \<notin> set rest \<longrightarrow>
      android_log_clean_filter (l # CHR ''/'' # tag @ '': '' @ rest) =
        (takeWhile (\<lambda>x. x \<noteq> CHR 0x1B) rest, tag = ''python.stdout'' \<or> tag = ''python.stderr''))
   \<and> android_log_clean_filter ''I/python.stdout: a: b'' = (''a: b'', True)"
proof (intro conjI impI)
  assume a: "in_cls [(CHR ''A'', CHR ''Z'')] l \<and> \<not> has_sep tag \<and> CHR 0x0A \<notin> set tag
      \<and> CHR 0x0A \<notin> set rest"
  then have "re_match ANDROID_LOG_PREFIX_REGEX (l # CHR ''/'' # tag @ '': '' @ rest) =
           Some [''tag'' \<mapsto> tag, ''content'' \<mapsto> takeWhile (\<lambda>x. x \<noteq> CHR 0x1B) rest]"
    by (intro match_exact) simp_all
  then show "android_log_clean_filter (l # CHR ''/'' # tag @ '': '' @ rest) =
        (takeWhile (\<lambda>x. x \<noteq> CHR 0x1B) rest, tag = ''python.stdout'' \<or> tag = ''python.stderr'')"
    by (simp add: android_log_clean_filter_def)
next
  show "android_log_clean_filter ''I/python.stdout: a: b'' = (''a: b'', True)"
    by code_simp
qed

theorem tag_is_lazy_witness:
  "in_cls [(CHR ''A'', CHR ''Z'')] (CHR ''W'') \<and> \<not> has_sep ''Activity''
   \<and> CHR 0x0A \<notin> set ''Activity'' \<and> CHR 0x0A \<notin> set ''x: y: z''
   \<and> android_log_clean_filter (CHR ''W'' # CHR ''/'' # ''Activity'' @ '': '' @ ''x: y: z'')
       = (''x: y: z'', False)"
proof -
  have h: "in_cls [(CHR ''A'', CHR ''Z'')] (CHR ''W'') \<and> \<not> has_sep ''Activity''
      \<and> CHR 0x0A \<notin> set ''Activity'' \<and> CHR 0x0A \<notin> set ''x: y: z''"
    by (simp add: in_cls_def)
  with tag_is_lazy [of "CHR ''W''" "''Activity''" "''x: y: z''"] show ?thesis
    by simp
qed

lemma fixed_point_iff:
  "(fst (android_log_clean_filter c) = c) = (re_match ANDROID_LOG_PREFIX_REGEX c = None)"
proof (cases "re_match ANDROID_LOG_PREFIX_REGEX c")
  case None
  then show ?thesis by (simp add: android_log_clean_filter_def)
next
  case (Some g)
  from match_shape [OF Some] obtain a l tg p post where
    s: "c = a @ l # CHR ''/'' # tg @ '': '' @ p @ post" "g = [''tag'' \<mapsto> tg, ''content'' \<mapsto> p]"
    by blast
  from Some s(2) have "fst (android_log_clean_filter c) = p"
    by (simp add: android_log_clean_filter_def)
  moreover from s(1) have "length p < length c" by simp
  ultimately have "fst (android_log_clean_filter c) \<noteq> c" by auto
  with Some show ?thesis by simp
qed

lemma bind_cases:
  assumes "bind m k w = (r, w')"
  obtains x where "m w = (Inl x, w')" "r = Inl x"
        | a w1 where "m w = (Inr a, w1)" "k a w1 = (r, w')"
  using assms by (auto simp: bind_def split: prod.splits sum.splits)

lemma bind_ok: "m w = (Inr a, w1) \<Longrightarrow> bind m k w = k a w1"
  by (simp add: bind_def)

lemma bind_fail: "m w = (Inl x, w1) \<Longrightarrow> bind m k w = (Inl x, w1)"
  by (simp add: bind_def)

lemma do_call_trace: "do_call e c w = (r, w') \<Longrightarrow> trace w' = trace w @ [c]"
  by (auto simp: do_call_def effect_def split: option.splits call.splits)

lemma do_call_ok:
  "fault e (trace w) c = None \<Longrightarrow> \<exists>w'. do_call e c w = (Inr (), w') \<and> trace w' = trace w @ [c]"
  by (auto simp: do_call_def effect_def split: option.splits call.splits)

lemma do_call_fail:
  "fault e (trace w) c = Some x \<Longrightarrow> \<exists>w'. do_call e c w = (Inl x, w') \<and> trace w' = trace w @ [c]"
  by (auto simp: do_call_def)

lemma do_call_result:
  "do_call e c w = (r, w') \<Longrightarrow> r = (case fault e (trace w) c of None \<Rightarrow> Inr () | Some x \<Rightarrow> Inl x)"
  by (auto simp: do_call_def split: option.splits)

lemma do_call_clock: "do_call e c w = (r, w') \<Longrightarrow> clock w \<le> clock w'"
  by (auto simp: do_call_def effect_def split: option.splits call.splits)

lemma sleep_clock: "do_call e Sleep w = (Inr u, w') \<Longrightarrow> clock w + 10000 \<le> clock w'"
  by (auto simp: do_call_def effect_def split: option.splits)

lemma try_finally_last:
  assumes "try_finally body (do_call e c) w = (r, w')"
  shows "trace w' \<noteq> [] \<and> last (trace w') = c"
proof -
  obtain r1 w1 where b: "body w = (r1, w1)" by (cases "body w")
  obtain r2 w2 where f: "do_call e c w1 = (r2, w2)" by (cases "do_call e c w1")
  from assms b f have "w' = w2" by (auto simp: try_finally_def split: sum.splits)
  with do_call_trace [OF f] show ?thesis by simp
qed

lemma star_cls_Nil: "ms (Star (Cls A)) ([], c) = [([], c)]"
  by simp

lemma star_cls_Cons:
  "ms (Star (Cls A)) (x # xs, c) =
     (if in_cls A x then ms (Star (Cls A)) (xs, c) else []) @ [(x # xs, c)]"
  by (simp add: progress_def)

lemma cls_facts:
  "in_cls [(CHR ''0'', CHR ''?'')] x \<Longrightarrow> \<not> in_cls [(CHR '' '', CHR ''/'')] x"
  "in_cls [(CHR ''0'', CHR ''?'')] x \<Longrightarrow> \<not> in_cls [(CHR ''@'', CHR ''~'')] x"
  "in_cls [(CHR '' '', CHR ''/'')] x \<Longrightarrow> \<not> in_cls [(CHR ''@'', CHR ''~'')] x"
  "in_cls [(CHR '' '', CHR ''/'')] x \<Longrightarrow> \<not> in_cls [(CHR ''0'', CHR ''?'')] x"
  "in_cls [(CHR ''@'', CHR ''~'')] x \<Longrightarrow> \<not> in_cls [(CHR ''0'', CHR ''?'')] x"
  "in_cls [(CHR ''@'', CHR ''~'')] x \<Longrightarrow> \<not> in_cls [(CHR '' '', CHR ''/'')] x"
  by (simp_all add: in_cls_def)

lemma csi_inter_Cons:
  "ms CSI_INTER (x # xs, c) =
     (if in_cls [(CHR '' '', CHR ''/'')] x then ms CSI_INTER (xs, c) else []) @
     (if in_cls [(CHR ''@'', CHR ''~'')] x then [(xs, c)] else [])"
  unfolding CSI_INTER_def ms.simps(5) star_cls_Cons
  by (simp del: ms.simps(7))

lemma csi_inter_Nil: "ms CSI_INTER ([], c) = []"
  by (simp add: CSI_INTER_def)

lemma csi_inter_exact:
  assumes "\<forall>x \<in> set ims. in_cls [(CHR '' '', CHR ''/'')] x" "in_cls [(CHR ''@'', CHR ''~'')] f"
  shows "ms CSI_INTER (ims @ f # r, c) = [(r, c)]"
  using assms(1)
proof (induction ims)
  case Nil
  from cls_facts(6) [OF assms(2)] assms(2) show ?case
    by (simp add: csi_inter_Cons del: ms.simps)
next
  case (Cons i ims)
  then have i: "in_cls [(CHR '' '', CHR ''/'')] i" and IH: "ms CSI_INTER (ims @ f # r, c) = [(r, c)]"
    by simp_all
  from cls_facts(3) [OF i] i IH show ?case
    by (simp add: csi_inter_Cons del: ms.simps)
qed

lemma csi_params_Cons:
  "ms CSI_PARAMS (x # xs, c) =
     (if in_cls [(CHR ''0'', CHR ''?'')] x then ms CSI_PARAMS (xs, c) else []) @
     ms CSI_INTER (x # xs, c)"
  unfolding CSI_PARAMS_def ms.simps(5) star_cls_Cons
  by (simp del: ms.simps)

lemma csi_params_Nil: "ms CSI_PARAMS ([], c) = []"
  by (simp only: CSI_PARAMS_def ms.simps(5) star_cls_Nil) (simp add: csi_inter_Nil del: ms.simps)

lemma csi_params_exact:
  assumes "\<forall>x \<in> set ps. in_cls [(CHR ''0'', CHR ''?'')] x"
    "\<forall>x \<in> set ims. in_cls [(CHR '' '', CHR ''/'')] x" "in_cls [(CHR ''@'', CHR ''~'')] f"
  shows "ms CSI_PARAMS (ps @ ims @ f # r, c) = [(r, c)]"
  using assms(1)
proof (induction ps)
  case Nil
  have "ms CSI_PARAMS (ims @ f # r, c) = ms CSI_INTER (ims @ f # r, c)"
  proof (cases ims)
    case Nil
    from cls_facts(5) [OF assms(3)] Nil show ?thesis
      by (simp add: csi_params_Cons del: ms.simps)
  next
    case (Cons i is')
    with assms(2) have "in_cls [(CHR '' '', CHR ''/'')] i" by simp
    from cls_facts(4) [OF this] Cons show ?thesis
      by (simp add: csi_params_Cons del: ms.simps)
  qed
  with csi_inter_exact [OF assms(2,3)] show ?case by simp
next
  case (Cons p ps)
  then have p: "in_cls [(CHR ''0'', CHR ''?'')] p" and IH: "ms CSI_PARAMS (ps @ ims @ f # r, c) = [(r, c)]"
    by simp_all
  from cls_facts(1) [OF p] cls_facts(2) [OF p] have "ms CSI_INTER (p # ps @ ims @ f # r, c) = []"
    by (simp add: csi_inter_Cons del: ms.simps)
  with p IH show ?case by (simp add: csi_params_Cons del: ms.simps)
qed

lemma ansi_split:
  "ANSI_ESC_SEQ_RE_DEF =
     Alt (Seq (Lit (CHR 0x1B)) (Cls [(CHR ''@'', CHR ''Z''), (CHR 0x5C, CHR ''_'')]))
         (Seq (Lit (CHR 0x1B)) (Seq (Lit (CHR ''['')) CSI_PARAMS))"
  by (simp add: ANSI_ESC_SEQ_RE_DEF_def CSI_PARAMS_def CSI_INTER_def)

lemma ansi_short: "length s < 2 \<Longrightarrow> ms ANSI_ESC_SEQ_RE_DEF (s, c) = []"
proof (cases s)
  case Nil
  then show ?thesis by (simp only: ansi_split) simp
next
  case (Cons x xs)
  assume "length s < 2"
  with Cons have "xs = []" by simp
  with Cons show ?thesis by (simp only: ansi_split) simp
qed

lemma ansi_unfold:
  "ms ANSI_ESC_SEQ_RE_DEF (x # y # r, c) =
     (if x = CHR 0x1B \<and> in_cls [(CHR ''@'', CHR ''Z''), (CHR 0x5C, CHR ''_'')] y then [(r, c)] else []) @
     (if x = CHR 0x1B \<and> y = CHR ''['' then ms CSI_PARAMS (r, c) else [])"
  by (simp only: ansi_split) simp

lemma bracket_not_fe: "\<not> in_cls [(CHR ''@'', CHR ''Z''), (CHR 0x5C, CHR ''_'')] (CHR ''['')"
  by (simp add: in_cls_def)

lemma ansi_exact:
  assumes "is_ansi a"
  shows "ms ANSI_ESC_SEQ_RE_DEF (a @ r, c) = [(r, c)]"
proof -
  from assms have
    "(\<exists>x. a = [CHR 0x1B, x] \<and> in_cls [(CHR ''@'', CHR ''Z''), (CHR 0x5C, CHR ''_'')] x) \<or>
      (\<exists>ps ims f. a = CHR 0x1B # CHR ''['' # ps @ ims @ [f]
          \<and> (\<forall>x \<in> set ps. in_cls [(CHR ''0'', CHR ''?'')] x)
          \<and> (\<forall>x \<in> set ims. in_cls [(CHR '' '', CHR ''/'')] x)
          \<and> in_cls [(CHR ''@'', CHR ''~'')] f)"
    by (simp only: is_ansi_def)
  then show ?thesis
  proof (elim disjE exE conjE)
    fix x assume a: "a = [CHR 0x1B, x]" and x: "in_cls [(CHR ''@'', CHR ''Z''), (CHR 0x5C, CHR ''_'')] x"
    from x bracket_not_fe have "x \<noteq> CHR ''[''" by auto
    with a x show ?thesis by (simp add: ansi_unfold del: ms.simps)
  next
    fix ps ims f
    assume a: "a = CHR 0x1B # CHR ''['' # ps @ ims @ [f]"
      and p: "\<forall>x \<in> set ps. in_cls [(CHR ''0'', CHR ''?'')] x"
      and i: "\<forall>x \<in> set ims. in_cls [(CHR '' '', CHR ''/'')] x"
      and f: "in_cls [(CHR ''@'', CHR ''~'')] f"
    from csi_params_exact [OF p i f, of r c] a show ?thesis
      by (simp add: ansi_unfold bracket_not_fe del: ms.simps)
  qed
qed

lemma star_cls_sound:
  "t \<in> set (ms (Star (Cls A)) (s, c)) \<Longrightarrow> \<exists>u. s = u @ fst t \<and> (\<forall>x \<in> set u. in_cls A x)"
proof (induction s)
  case Nil
  then show ?case by (simp add: star_cls_Nil del: ms.simps)
next
  case (Cons x xs)
  from Cons.prems consider "t = (x # xs, c)" | "in_cls A x" "t \<in> set (ms (Star (Cls A)) (xs, c))"
    by (auto simp: star_cls_Cons simp del: ms.simps split: if_splits)
  then show ?case
  proof cases
    case 1
    then show ?thesis by simp
  next
    case 2
    from Cons.IH [OF 2(2)] obtain u where "xs = u @ fst t" "\<forall>x \<in> set u. in_cls A x" by blast
    with 2(1) have "x # xs = (x # u) @ fst t \<and> (\<forall>y \<in> set (x # u). in_cls A y)" by simp
    then show ?thesis by blast
  qed
qed

lemma csi_inter_sound:
  "t \<in> set (ms CSI_INTER (s, c)) \<Longrightarrow>
     \<exists>ims f. s = ims @ f # fst t \<and> (\<forall>x \<in> set ims. in_cls [(CHR '' '', CHR ''/'')] x)
       \<and> in_cls [(CHR ''@'', CHR ''~'')] f"
proof (induction s)
  case Nil
  then show ?case by (simp add: csi_inter_Nil)
next
  case (Cons x xs)
  from Cons.prems consider
    "in_cls [(CHR '' '', CHR ''/'')] x" "t \<in> set (ms CSI_INTER (xs, c))"
  | "in_cls [(CHR ''@'', CHR ''~'')] x" "t = (xs, c)"
    by (auto simp: csi_inter_Cons split: if_splits)
  then show ?case
  proof cases
    case 1
    from Cons.IH [OF 1(2)] obtain ims f where
      "xs = ims @ f # fst t" "\<forall>x \<in> set ims. in_cls [(CHR '' '', CHR ''/'')] x"
      "in_cls [(CHR ''@'', CHR ''~'')] f" by blast
    with 1(1) have "x # xs = (x # ims) @ f # fst t
        \<and> (\<forall>y \<in> set (x # ims). in_cls [(CHR '' '', CHR ''/'')] y) \<and> in_cls [(CHR ''@'', CHR ''~'')] f"
      by simp
    then show ?thesis by blast
  next
    case 2
    then have "x # xs = [] @ x # fst t \<and> (\<forall>y \<in> set []. in_cls [(CHR '' '', CHR ''/'')] y)
        \<and> in_cls [(CHR ''@'', CHR ''~'')] x" by simp
    then show ?thesis by blast
  qed
qed

lemma csi_params_sound:
  "t \<in> set (ms CSI_PARAMS (s, c)) \<Longrightarrow>
     \<exists>ps ims f. s = ps @ ims @ f # fst t \<and> (\<forall>x \<in> set ps. in_cls [(CHR ''0'', CHR ''?'')] x)
       \<and> (\<forall>x \<in> set ims. in_cls [(CHR '' '', CHR ''/'')] x) \<and> in_cls [(CHR ''@'', CHR ''~'')] f"
proof (induction s)
  case Nil
  then show ?case by (simp add: csi_params_Nil)
next
  case (Cons x xs)
  from Cons.prems consider
    "in_cls [(CHR ''0'', CHR ''?'')] x" "t \<in> set (ms CSI_PARAMS (xs, c))"
  | "t \<in> set (ms CSI_INTER (x # xs, c))"
    by (auto simp: csi_params_Cons split: if_splits)
  then show ?case
  proof cases
    case 1
    from Cons.IH [OF 1(2)] obtain ps ims f where
      "xs = ps @ ims @ f # fst t" "\<forall>x \<in> set ps. in_cls [(CHR ''0'', CHR ''?'')] x"
      "\<forall>x \<in> set ims. in_cls [(CHR '' '', CHR ''/'')] x" "in_cls [(CHR ''@'', CHR ''~'')] f" by blast
    with 1(1) have "x # xs = (x # ps) @ ims @ f # fst t
        \<and> (\<forall>y \<in> set (x # ps). in_cls [(CHR ''0'', CHR ''?'')] y)
        \<and> (\<forall>x \<in> set ims. in_cls [(CHR '' '', CHR ''/'')] x) \<and> in_cls [(CHR ''@'', CHR ''~'')] f"
      by simp
    then show ?thesis by blast
  next
    case 2
    from csi_inter_sound [OF 2] obtain ims f where
      "x # xs = ims @ f # fst t" "\<forall>x \<in> set ims. in_cls [(CHR '' '', CHR ''/'')] x"
      "in_cls [(CHR ''@'', CHR ''~'')] f" by blast
    then have "x # xs = [] @ ims @ f # fst t
        \<and> (\<forall>y \<in> set []. in_cls [(CHR ''0'', CHR ''?'')] y)
        \<and> (\<forall>x \<in> set ims. in_cls [(CHR '' '', CHR ''/'')] x) \<and> in_cls [(CHR ''@'', CHR ''~'')] f"
      by simp
    then show ?thesis by blast
  qed
qed

lemma is_ansi_fe:
  "in_cls [(CHR ''@'', CHR ''Z''), (CHR 0x5C, CHR ''_'')] y \<Longrightarrow> is_ansi [CHR 0x1B, y]"
  unfolding is_ansi_def by (rule disjI1) (rule exI [of _ y], simp)

lemma is_ansi_csi:
  assumes "\<forall>x \<in> set ps. in_cls [(CHR ''0'', CHR ''?'')] x"
    "\<forall>x \<in> set ims. in_cls [(CHR '' '', CHR ''/'')] x" "in_cls [(CHR ''@'', CHR ''~'')] f"
  shows "is_ansi (CHR 0x1B # CHR ''['' # ps @ ims @ [f])"
  unfolding is_ansi_def
  by (rule disjI2, rule exI [of _ ps], rule exI [of _ ims], rule exI [of _ f]) (simp add: assms)

lemma ansi_sound:
  assumes "t \<in> set (ms ANSI_ESC_SEQ_RE_DEF (s, c))"
  shows "\<exists>a. s = a @ fst t \<and> is_ansi a"
proof (cases "length s < 2")
  case True
  from ansi_short [OF this] assms show ?thesis by (simp only: list.set empty_iff)
next
  case False
  then obtain x y r where s: "s = x # y # r"
    by (cases s; cases "tl s") simp_all
  from assms have m: "t \<in> set (
     (if x = CHR 0x1B \<and> in_cls [(CHR ''@'', CHR ''Z''), (CHR 0x5C, CHR ''_'')] y then [(r, c)] else []) @
     (if x = CHR 0x1B \<and> y = CHR ''['' then ms CSI_PARAMS (r, c) else []))"
    by (simp only: s ansi_unfold)
  show ?thesis
  proof (cases "x = CHR 0x1B")
    case False
    with m show ?thesis by (simp del: ms.simps)
  next
    case x: True
    from m x consider
      "in_cls [(CHR ''@'', CHR ''Z''), (CHR 0x5C, CHR ''_'')] y" "t = (r, c)"
    | "y = CHR ''[''" "t \<in> set (ms CSI_PARAMS (r, c))"
      using bracket_not_fe
      by (cases "in_cls [(CHR ''@'', CHR ''Z''), (CHR 0x5C, CHR ''_'')] y"; cases "y = CHR ''[''")
         (auto simp del: ms.simps)
    then show ?thesis
    proof cases
      case 1
      from is_ansi_fe [OF 1(1)] s x 1(2) have "s = [CHR 0x1B, y] @ fst t \<and> is_ansi [CHR 0x1B, y]"
        by simp
      then show ?thesis by (rule exI)
    next
      case 2
      from csi_params_sound [OF 2(2)] obtain ps ims f where
        p: "r = ps @ ims @ f # fst t" "\<forall>x \<in> set ps. in_cls [(CHR ''0'', CHR ''?'')] x"
        "\<forall>x \<in> set ims. in_cls [(CHR '' '', CHR ''/'')] x" "in_cls [(CHR ''@'', CHR ''~'')] f"
        by blast
      from s x 2(1) p(1) have "s = (CHR 0x1B # CHR ''['' # ps @ ims @ [f]) @ fst t" by simp
      with is_ansi_csi [OF p(2-4)]
      have "s = (CHR 0x1B # CHR ''['' # ps @ ims @ [f]) @ fst t \<and> is_ansi (CHR 0x1B # CHR ''['' # ps @ ims @ [f])"
        by (rule_tac conjI)
      then show ?thesis by (rule exI)
    qed
  qed
qed

lemma star_greedy_run:
  assumes f: "\<And>s t. t \<in> set (f s) \<Longrightarrow> \<exists>a. fst s = a @ fst t \<and> Q a"
  shows "t \<in> set (star_greedy f n s) \<Longrightarrow> \<exists>as. fst s = concat as @ fst t \<and> (\<forall>a \<in> set as. Q a)"
proof (induction n arbitrary: s)
  case 0
  then have "fst s = concat [] @ fst t \<and> (\<forall>a \<in> set []. Q a)" by simp
  then show ?case by blast
next
  case (Suc n)
  from Suc.prems consider "t = s" | m where "m \<in> set (f s)" "t \<in> set (star_greedy f n m)"
    by auto
  then show ?case
  proof cases
    case 1
    then have "fst s = concat [] @ fst t \<and> (\<forall>a \<in> set []. Q a)" by simp
    then show ?thesis by blast
  next
    case 2
    from f [OF 2(1)] obtain a where a: "fst s = a @ fst m" "Q a" by blast
    from Suc.IH [OF 2(2)] obtain as where "fst m = concat as @ fst t" "\<forall>a \<in> set as. Q a" by blast
    with a have "fst s = concat (a # as) @ fst t \<and> (\<forall>b \<in> set (a # as). Q b)" by simp
    then show ?thesis by blast
  qed
qed

lemma ansi_sound_pair:
  "t \<in> set (ms ANSI_ESC_SEQ_RE_DEF s) \<Longrightarrow> \<exists>a. fst s = a @ fst t \<and> is_ansi a"
  using ansi_sound [of t "fst s" "snd s"] by simp

lemma ansi_star_sound:
  assumes "t \<in> set (ms (Star ANSI_ESC_SEQ_RE_DEF) (s, c))"
  shows "\<exists>a. s = a @ fst t \<and> ansi_run a"
proof -
  from assms have "t \<in> set (star_greedy (ms ANSI_ESC_SEQ_RE_DEF) (length s) (s, c))"
    by (simp only: ms.simps fst_conv)
  from star_greedy_run [of "ms ANSI_ESC_SEQ_RE_DEF" is_ansi, OF ansi_sound_pair this]
  obtain as where "fst (s, c) = concat as @ fst t" "\<forall>a \<in> set as. is_ansi a"
    by blast
  then have "s = concat as @ fst t \<and> ansi_run (concat as)"
    unfolding ansi_run_def by auto
  then show ?thesis by blast
qed

lemma star_greedy_fuel:
  "length (fst s) \<le> n \<Longrightarrow> length (fst s) \<le> m \<Longrightarrow> star_greedy f n s = star_greedy f m s"
proof (induction n arbitrary: m s)
  case 0
  then have e: "filter (progress s) (f s) = []" by (auto simp: progress_def filter_empty_conv)
  show ?case by (cases m) (simp_all add: e)
next
  case (Suc n)
  show ?case
  proof (cases m)
    case 0
    with Suc.prems have "filter (progress s) (f s) = []" by (auto simp: progress_def filter_empty_conv)
    with 0 show ?thesis by simp
  next
    case (Suc m')
    have "map (star_greedy f n) (filter (progress s) (f s))
        = map (star_greedy f m') (filter (progress s) (f s))"
    proof (rule map_cong [OF refl])
      fix t assume "t \<in> set (filter (progress s) (f s))"
      then have "length (fst t) < length (fst s)" by (simp add: progress_def)
      with Suc.prems Suc have "length (fst t) \<le> n" "length (fst t) \<le> m'" by simp_all
      from Suc.IH [OF this] show "star_greedy f n t = star_greedy f m' t" .
    qed
    then have "concat (map (star_greedy f n) (filter (progress s) (f s))) @ [s]
        = concat (map (star_greedy f m') (filter (progress s) (f s))) @ [s]"
      by (simp only:)
    then show ?thesis by (simp only: Suc star_greedy.simps)
  qed
qed

lemma is_ansi_length: "is_ansi a \<Longrightarrow> 2 \<le> length a"
  unfolding is_ansi_def by (elim disjE exE conjE) simp_all

lemma is_ansi_head: "is_ansi a \<Longrightarrow> \<exists>xs. a = CHR 0x1B # xs"
  unfolding is_ansi_def by (elim disjE exE conjE) simp_all

lemma star_ansi_prefix:
  assumes "is_ansi a"
  shows "ms (Star ANSI_ESC_SEQ_RE_DEF) (a @ s, c) = ms (Star ANSI_ESC_SEQ_RE_DEF) (s, c) @ [(a @ s, c)]"
proof -
  define k where "k = length (a @ s) - 1"
  from is_ansi_length [OF assms] have k: "length (a @ s) = Suc k" "length s \<le> k"
    by (simp_all add: k_def)
  from is_ansi_length [OF assms] have "0 < length a" by arith
  then have p: "progress (a @ s, c) (s, c)" by (simp add: progress_def)
  have "ms (Star ANSI_ESC_SEQ_RE_DEF) (a @ s, c)
      = star_greedy (ms ANSI_ESC_SEQ_RE_DEF) k (s, c) @ [(a @ s, c)]"
    by (simp only: ms.simps(7) fst_conv k(1) star_greedy.simps ansi_exact [OF assms]
        filter.simps p if_True list.map concat.simps append_Nil2)
  also have "star_greedy (ms ANSI_ESC_SEQ_RE_DEF) k (s, c) = ms (Star ANSI_ESC_SEQ_RE_DEF) (s, c)"
  proof -
    have "length (fst (s, c)) \<le> k" "length (fst (s, c)) \<le> length s" using k(2) by simp_all
    from star_greedy_fuel [OF this, of "ms ANSI_ESC_SEQ_RE_DEF"] show ?thesis
      by (simp only: ms.simps(7) fst_conv)
  qed
  finally show ?thesis .
qed

lemma star_ansi_run:
  assumes "ansi_run pre"
  shows "\<exists>bs. ms (Star ANSI_ESC_SEQ_RE_DEF) (pre @ s, c) = ms (Star ANSI_ESC_SEQ_RE_DEF) (s, c) @ bs"
proof -
  from assms obtain seqs where seqs: "pre = concat seqs" "\<forall>a \<in> set seqs. is_ansi a"
    unfolding ansi_run_def by blast
  from seqs(2) have "\<exists>bs. ms (Star ANSI_ESC_SEQ_RE_DEF) (concat seqs @ s, c)
      = ms (Star ANSI_ESC_SEQ_RE_DEF) (s, c) @ bs"
  proof (induction seqs)
    case Nil
    have "ms (Star ANSI_ESC_SEQ_RE_DEF) (concat [] @ s, c) = ms (Star ANSI_ESC_SEQ_RE_DEF) (s, c) @ []"
      by (simp only: concat.simps append_Nil append_Nil2)
    then show ?case by blast
  next
    case (Cons a seqs)
    then have a: "is_ansi a" and "\<forall>a \<in> set seqs. is_ansi a" by simp_all
    from Cons.IH [OF this(2)] obtain bs where
      bs: "ms (Star ANSI_ESC_SEQ_RE_DEF) (concat seqs @ s, c) = ms (Star ANSI_ESC_SEQ_RE_DEF) (s, c) @ bs"
      by blast
    have "ms (Star ANSI_ESC_SEQ_RE_DEF) (concat (a # seqs) @ s, c)
        = ms (Star ANSI_ESC_SEQ_RE_DEF) (a @ (concat seqs @ s), c)"
      by (simp only: concat.simps append_assoc)
    also have "\<dots> = ms (Star ANSI_ESC_SEQ_RE_DEF) (s, c) @ (bs @ [(a @ concat seqs @ s, c)])"
      by (simp only: star_ansi_prefix [OF a] bs append_assoc)
    finally show ?case by blast
  qed
  with seqs(1) show ?thesis by (simp only:)
qed

lemma cb_at_look: "lookok post \<Longrightarrow> \<exists>ts. ms CONTENT_BODY (post, c) = (post, c) # ts"
  by (cases post) (simp_all add: cb_Nil cb_Cons del: ms.simps)

lemma cb_exact:
  assumes "lookok post"
  shows "CHR 0x1B \<notin> set p \<Longrightarrow> CHR 0x0A \<notin> set p \<Longrightarrow>
           \<exists>ts. ms CONTENT_BODY (p @ post, c) = (post, c) # ts"
proof (induction p)
  case Nil
  from cb_at_look [OF assms] show ?case by simp
next
  case (Cons x p)
  then have x: "x \<noteq> CHR 0x1B" "x \<noteq> CHR 0x0A" by auto
  then have "\<not> lookok (x # p @ post)" by (simp add: lookok_def)
  with Cons x show ?case by (simp add: cb_Cons del: ms.simps)
qed

lemma cb_member:
  assumes "lookok post"
  shows "CHR 0x0A \<notin> set p \<Longrightarrow> ms CONTENT_BODY (p @ post, c) \<noteq> []"
proof (induction p)
  case Nil
  from cb_at_look [OF assms, of c] show ?case by auto
next
  case (Cons x p)
  then have "x \<noteq> CHR 0x0A" "ms CONTENT_BODY (p @ post, c) \<noteq> []" by auto
  then show ?case by (simp add: cb_Cons del: ms.simps)
qed

lemma cb_empty_caps: "ms CONTENT_BODY (r, c) = [] \<Longrightarrow> ms CONTENT_BODY (r, c') = []"
proof (induction r)
  case Nil
  then show ?case by (simp add: cb_Nil)
next
  case (Cons x xs)
  then show ?case by (simp add: cb_Cons del: ms.simps split: if_splits)
qed

lemma cb_empty_suffix:
  "ms CONTENT_BODY (u @ r, c) = [] \<Longrightarrow> CHR 0x0A \<notin> set u \<Longrightarrow> ms CONTENT_BODY (r, c) = []"
proof (induction u)
  case Nil
  then show ?case by simp
next
  case (Cons x u)
  then show ?case by (simp add: cb_Cons del: ms.simps split: if_splits)
qed

lemma pat_content_empty_iff: "(ms PAT_CONTENT (r, c) = []) = (ms CONTENT_BODY (r, c) = [])"
proof
  assume e: "ms PAT_CONTENT (r, c) = []"
  show "ms CONTENT_BODY (r, c) = []"
  proof (cases "ms CONTENT_BODY (r, c)")
    case Nil
    then show ?thesis .
  next
    case (Cons t0 ts0)
    from pat_content_hd [OF Cons] e show ?thesis by simp
  qed
next
  assume "ms CONTENT_BODY (r, c) = []"
  then show "ms PAT_CONTENT (r, c) = []" by (rule pat_content_empty)
qed

lemma pat_content_exact:
  assumes "CHR 0x1B \<notin> set p" "CHR 0x0A \<notin> set p" "lookok post"
  shows "\<exists>t ts. ms PAT_CONTENT (p @ post, c) = t # ts \<and> snd t = c(''content'' \<mapsto> p)"
proof -
  from cb_exact [OF assms(3) assms(1,2), of c] obtain ts0 where
    "ms CONTENT_BODY (p @ post, c) = (post, c) # ts0" by blast
  from pat_content_hd [OF this] show ?thesis by simp
qed

lemma first_concat_upt:
  "concat (map f [0..<m]) = y # ys \<Longrightarrow> \<exists>k<m. (\<forall>j<k. f j = []) \<and> (\<exists>zs. f k = y # zs)"
proof (induction m arbitrary: ys)
  case 0
  then show ?case by simp
next
  case (Suc m)
  show ?case
  proof (cases "concat (map f [0..<m])")
    case Nil
    then have a: "\<forall>j<m. f j = []" by auto
    from Suc.prems Nil have "f m = y # ys" by simp
    with a show ?thesis by blast
  next
    case (Cons y' ys')
    with Suc.prems have "y' = y" by simp
    with Cons Suc.IH [of ys'] obtain k where "k < m" "\<forall>j<k. f j = []" "\<exists>zs. f k = y # zs"
      by blast
    then have "k < Suc m \<and> (\<forall>j<k. f j = []) \<and> (\<exists>zs. f k = y # zs)" by simp
    then show ?thesis by blast
  qed
qed

lemma has_sep_at: "has_sep u \<Longrightarrow> \<exists>j r. j < length u \<and> drop j u = CHR '':'' # CHR '' '' # r"
proof (induction u)
  case Nil
  then show ?case by simp
next
  case (Cons x xs)
  show ?case
  proof (cases xs)
    case Nil
    with Cons.prems show ?thesis by simp
  next
    case (Cons y ys)
    show ?thesis
    proof (cases "x = CHR '':'' \<and> y = CHR '' ''")
      case True
      with Cons have "0 < length (x # xs) \<and> drop 0 (x # xs) = CHR '':'' # CHR '' '' # ys" by simp
      then show ?thesis by blast
    next
      case False
      with Cons Cons.prems have "has_sep xs" by simp
      from Cons.IH [OF this] obtain j r where "j < length xs" "drop j xs = CHR '':'' # CHR '' '' # r"
        by blast
      then have "Suc j < length (x # xs) \<and> drop (Suc j) (x # xs) = CHR '':'' # CHR '' '' # r" by simp
      then show ?thesis by blast
    qed
  qed
qed

lemma tag_range:
  assumes "CHR 0x0A \<notin> set tg"
  shows "length tg \<le> length (takeWhile (\<lambda>x. x \<noteq> CHR 0x0A) (tg @ rest))"
proof -
  from assms have "takeWhile (\<lambda>x. x \<noteq> CHR 0x0A) (tg @ rest) = tg @ takeWhile (\<lambda>x. x \<noteq> CHR 0x0A) rest"
    by (intro takeWhile_append2) auto
  then show ?thesis by simp
qed

lemma pat_tag_at:
  assumes ns: "\<not> has_sep tg" and nt: "CHR 0x0A \<notin> set tg"
  shows "\<exists>more. ms PAT_TAG (tg @ '': '' @ rest, c) = ms PAT_CONTENT (rest, c(''tag'' \<mapsto> tg)) @ more"
proof -
  let ?s = "tg @ '': '' @ rest"
  let ?n = "length (takeWhile (\<lambda>x. x \<noteq> CHR 0x0A) ?s)"
  let ?f = "\<lambda>k. ms PAT_SEP (drop k ?s, c(''tag'' \<mapsto> take k ?s))"
  from tag_range [OF nt, of "'': '' @ rest"] have le: "length tg \<le> ?n" .
  have split: "[0..<Suc ?n] = [0..<length tg] @ length tg # [Suc (length tg)..<Suc ?n]"
  proof -
    from le have "[0..<Suc ?n] = [0..<length tg] @ [length tg..<Suc ?n]"
      using upt_add_eq_append [of 0 "length tg" "Suc ?n - length tg"] by simp
    moreover from le have "[length tg..<Suc ?n] = length tg # [Suc (length tg)..<Suc ?n]"
      by (intro upt_conv_Cons) simp
    ultimately show ?thesis by (simp only:)
  qed
  have early: "?f j = []" if "j \<in> set [0..<length tg]" for j
  proof -
    from that have j: "j < length tg" by simp
    then have d: "drop j ?s = drop j tg @ '': '' @ rest" by simp
    from j have "drop j tg \<noteq> []" by simp
    from no_sep_head [OF no_sep_drop [OF ns] this] d
    have "\<not> (\<exists>r. drop j ?s = CHR '':'' # CHR '' '' # r)" by auto
    from pat_sep_other [OF this] show ?thesis .
  qed
  then have "concat (map ?f [0..<length tg]) = []" by simp
  then have "ms PAT_TAG (?s, c) = ?f (length tg) @ concat (map ?f [Suc (length tg)..<Suc ?n])"
    by (simp only: pat_tag_unfold split map_append concat_append list.map concat.simps append_Nil)
  moreover have "?f (length tg) = ms PAT_CONTENT (rest, c(''tag'' \<mapsto> tg))"
    by (simp add: pat_sep_at del: ms.simps)
  ultimately show ?thesis by (simp only:) blast
qed

lemma concat_map_nonempty: "x \<in> set xs \<Longrightarrow> f x \<noteq> [] \<Longrightarrow> concat (map f xs) \<noteq> []"
  by (induction xs) auto

lemma pat_tag_member:
  assumes nt: "CHR 0x0A \<notin> set tg" and ne: "ms PAT_CONTENT (rest, c(''tag'' \<mapsto> tg)) \<noteq> []"
  shows "ms PAT_TAG (tg @ '': '' @ rest, c) \<noteq> []"
proof -
  let ?s = "tg @ '': '' @ rest"
  let ?n = "length (takeWhile (\<lambda>x. x \<noteq> CHR 0x0A) ?s)"
  let ?f = "\<lambda>k. ms PAT_SEP (drop k ?s, c(''tag'' \<mapsto> take k ?s))"
  from tag_range [OF nt, of "'': '' @ rest"] have "length tg < Suc ?n" by arith
  then have m: "length tg \<in> set [0..<Suc ?n]" by (simp only: set_upt atLeastLessThan_iff le0 simp_thms)
  have "?f (length tg) = ms PAT_CONTENT (rest, c(''tag'' \<mapsto> tg))"
    by (simp add: pat_sep_at del: ms.simps)
  with ne have fk: "?f (length tg) \<noteq> []" by (simp only:) simp
  from concat_map_nonempty [of "length tg" "[0..<Suc ?n]" ?f, OF m fk]
  show ?thesis by (simp only: pat_tag_unfold not_False_eq_True)
qed

lemma pat_tag_first_nosep:
  assumes "ms PAT_TAG (s, c) = t # ts"
  shows "\<exists>tg p post. s = tg @ '': '' @ p @ post \<and> CHR 0x0A \<notin> set tg \<and> \<not> has_sep tg
           \<and> CHR 0x1B \<notin> set p \<and> CHR 0x0A \<notin> set p \<and> lookok post
           \<and> snd t = c(''tag'' \<mapsto> tg, ''content'' \<mapsto> p)"
proof -
  let ?f = "\<lambda>k. ms PAT_SEP (drop k s, c(''tag'' \<mapsto> take k s))"
  from assms have "concat (map ?f [0..<Suc (length (takeWhile (\<lambda>x. x \<noteq> CHR 0x0A) s))]) = t # ts"
    by (simp only: pat_tag_unfold)
  from first_concat_upt [OF this] obtain k zs where
    k: "k < Suc (length (takeWhile (\<lambda>x. x \<noteq> CHR 0x0A) s))" "\<forall>j<k. ?f j = []" "?f k = t # zs"
    by blast
  from k(1) have kle: "k \<le> length (takeWhile (\<lambda>x. x \<noteq> CHR 0x0A) s)" by simp
  from take_takeWhile_set [OF kle] have nl: "CHR 0x0A \<notin> set (take k s)" by blast
  have ks: "k \<le> length s" using kle length_takeWhile_le [of "\<lambda>x. x \<noteq> CHR 0x0A" s] by simp
  from k(3) pat_sep_other [of "drop k s"] obtain r where r: "drop k s = CHR '':'' # CHR '' '' # r"
    by fastforce
  with k(3) have pc: "ms PAT_CONTENT (r, c(''tag'' \<mapsto> take k s)) = t # zs"
    by (simp only: pat_sep_at)
  from pat_content_first [OF pc] obtain p post where
    p: "r = p @ post" "CHR 0x1B \<notin> set p" "CHR 0x0A \<notin> set p" "lookok post"
       "snd t = c(''tag'' \<mapsto> take k s, ''content'' \<mapsto> p)"
    by blast
  have "s = take k s @ drop k s" by simp
  with r p(1) have s: "s = take k s @ '': '' @ p @ post" by simp
  have "\<not> has_sep (take k s)"
  proof
    assume "has_sep (take k s)"
    from has_sep_at [OF this] obtain j r' where
      j: "j < length (take k s)" "drop j (take k s) = CHR '':'' # CHR '' '' # r'" by blast
    from j(1) ks have jk: "j < k" by simp
    have "drop j s = drop j (take k s) @ drop k s"
      using jk by (metis append_take_drop_id drop_append length_take min.absorb2 ks
          diff_is_0_eq' drop_0 less_imp_le_nat)
    with j(2) r have dj: "drop j s = CHR '':'' # CHR '' '' # (r' @ '': '' @ r)" by simp
    from k(2) jk have "?f j = []" by blast
    with dj have "ms PAT_CONTENT (r' @ '': '' @ r, c(''tag'' \<mapsto> take j s)) = []"
      by (simp only: pat_sep_at)
    then have e: "ms CONTENT_BODY ((r' @ '': '') @ r, c(''tag'' \<mapsto> take j s)) = []"
      by (simp only: pat_content_empty_iff append_assoc)
    from j(2) have "set r' \<subseteq> set (drop j (take k s))" by auto
    also have "\<dots> \<subseteq> set (take k s)" by (rule set_drop_subset)
    finally have "CHR 0x0A \<notin> set r'" using nl by blast
    then have "CHR 0x0A \<notin> set (r' @ '': '')" by simp
    from cb_empty_suffix [OF e this] have "ms CONTENT_BODY (r, c(''tag'' \<mapsto> take j s)) = []" .
    from cb_empty_caps [OF this] have "ms CONTENT_BODY (r, c(''tag'' \<mapsto> take k s)) = []" .
    then have "ms PAT_CONTENT (r, c(''tag'' \<mapsto> take k s)) = []" by (rule pat_content_empty)
    with pc show False by simp
  qed
  with s nl p show ?thesis by blast
qed


lemma ansi_run_single: "is_ansi a \<Longrightarrow> ansi_run a"
  unfolding ansi_run_def by (rule exI [of _ "[a]"]) simp

lemma ansi_run_look:
  assumes "ansi_run post"
  shows "post = [] \<or> (\<exists>xs. post = CHR 0x1B # xs)"
proof -
  from assms obtain seqs where seqs: "post = concat seqs" "\<forall>a \<in> set seqs. is_ansi a"
    unfolding ansi_run_def by blast
  show ?thesis
  proof (cases seqs)
    case Nil
    with seqs(1) show ?thesis by simp
  next
    case (Cons a rest)
    with seqs(2) have "is_ansi a" by simp
    from is_ansi_head [OF this] obtain xs where "a = CHR 0x1B # xs" by blast
    with Cons seqs(1) have "post = CHR 0x1B # (xs @ concat rest)" by simp
    then show ?thesis by blast
  qed
qed

lemma level_first:
  assumes pre: "ansi_run pre" and l: "in_cls [(CHR ''A'', CHR ''Z'')] l"
  shows "\<exists>more. ms ANDROID_LOG_PREFIX_REGEX (pre @ l # CHR ''/'' # body, c)
           = ms PAT_TAG (body, c) @ more"
proof -
  from star_ansi_run [OF pre, of "l # CHR ''/'' # body" c] obtain bs where
    "ms (Star ANSI_ESC_SEQ_RE_DEF) (pre @ l # CHR ''/'' # body, c)
       = ms (Star ANSI_ESC_SEQ_RE_DEF) (l # CHR ''/'' # body, c) @ bs" by blast
  then have st: "ms (Star ANSI_ESC_SEQ_RE_DEF) (pre @ l # CHR ''/'' # body, c)
       = (l # CHR ''/'' # body, c) # bs"
    by (simp only: ansi_star_at_upper [OF l] append_Cons append_Nil)
  have "ms ANDROID_LOG_PREFIX_REGEX (pre @ l # CHR ''/'' # body, c)
      = ms PAT_LEVEL (l # CHR ''/'' # body, c) @ concat (map (ms PAT_LEVEL) bs)"
    by (simp only: regex_split ms.simps(5) st list.map concat.simps)
  also have "ms PAT_LEVEL (l # CHR ''/'' # body, c) = ms PAT_TAG (body, c)"
    by (simp only: pat_level_at l if_True)
  finally show ?thesis by blast
qed

lemma shape_exact:
  assumes "ansi_run pre" "in_cls [(CHR ''A'', CHR ''Z'')] l" "\<not> has_sep tg" "CHR 0x0A \<notin> set tg"
    "CHR 0x1B \<notin> set p" "CHR 0x0A \<notin> set p" "lookok post"
  shows "re_match ANDROID_LOG_PREFIX_REGEX (pre @ l # CHR ''/'' # tg @ '': '' @ p @ post)
           = Some [''tag'' \<mapsto> tg, ''content'' \<mapsto> p]"
proof -
  from level_first [OF assms(1,2), of "tg @ '': '' @ p @ post" Map.empty] obtain m1 where
    a: "ms ANDROID_LOG_PREFIX_REGEX (pre @ l # CHR ''/'' # tg @ '': '' @ p @ post, Map.empty)
          = ms PAT_TAG (tg @ '': '' @ p @ post, Map.empty) @ m1" by blast
  from pat_tag_at [OF assms(3,4), of "p @ post" Map.empty] obtain m2 where
    b: "ms PAT_TAG (tg @ '': '' @ p @ post, Map.empty)
          = ms PAT_CONTENT (p @ post, [''tag'' \<mapsto> tg]) @ m2" by blast
  from pat_content_exact [OF assms(5-7), of "[''tag'' \<mapsto> tg]"] obtain t ts where
    c: "ms PAT_CONTENT (p @ post, [''tag'' \<mapsto> tg]) = t # ts"
       "snd t = [''tag'' \<mapsto> tg, ''content'' \<mapsto> p]" by blast
  have "ms ANDROID_LOG_PREFIX_REGEX (pre @ l # CHR ''/'' # tg @ '': '' @ p @ post, Map.empty)
      = t # (ts @ m2 @ m1)"
    using a b c(1) by (simp del: ms.simps)
  with c(2) show ?thesis by (simp add: re_match_def del: ms.simps)
qed

lemma shape_match:
  assumes "log_shape line"
  shows "re_match ANDROID_LOG_PREFIX_REGEX line \<noteq> None"
proof -
  from assms obtain a l tg p post where
    s: "line = a @ l # CHR ''/'' # tg @ '': '' @ p @ post" "ansi_run a"
       "in_cls [(CHR ''A'', CHR ''Z'')] l" "CHR 0x0A \<notin> set tg" "CHR 0x1B \<notin> set p"
       "CHR 0x0A \<notin> set p" "lookok post"
    unfolding log_shape_def by blast
  from level_first [OF s(2,3), of "tg @ '': '' @ p @ post" Map.empty] obtain m1 where
    a: "ms ANDROID_LOG_PREFIX_REGEX (a @ l # CHR ''/'' # tg @ '': '' @ p @ post, Map.empty)
          = ms PAT_TAG (tg @ '': '' @ p @ post, Map.empty) @ m1" by blast
  from pat_content_exact [OF s(5-7), of "[''tag'' \<mapsto> tg]"]
  have "ms PAT_CONTENT (p @ post, [''tag'' \<mapsto> tg]) \<noteq> []" by auto
  from pat_tag_member [OF s(4) this] have "ms PAT_TAG (tg @ '': '' @ p @ post, Map.empty) \<noteq> []" .
  with a s(1) have "ms ANDROID_LOG_PREFIX_REGEX (line, Map.empty) \<noteq> []" by (simp del: ms.simps)
  then show ?thesis by (simp add: re_match_def del: ms.simps split: list.splits)
qed

lemma match_canonical:
  assumes "re_match ANDROID_LOG_PREFIX_REGEX line = Some g"
  shows "\<exists>a l tg p post. line = a @ l # CHR ''/'' # tg @ '': '' @ p @ post
           \<and> ansi_run a \<and> in_cls [(CHR ''A'', CHR ''Z'')] l
           \<and> CHR 0x0A \<notin> set tg \<and> \<not> has_sep tg
           \<and> CHR 0x1B \<notin> set p \<and> CHR 0x0A \<notin> set p \<and> lookok post
           \<and> g = [''tag'' \<mapsto> tg, ''content'' \<mapsto> p]"
proof -
  from assms obtain t ts where t: "ms ANDROID_LOG_PREFIX_REGEX (line, Map.empty) = t # ts" "g = snd t"
    by (auto simp: re_match_def split: list.splits)
  from t(1) have "concat (map (ms PAT_LEVEL) (ms (Star ANSI_ESC_SEQ_RE_DEF) (line, Map.empty))) = t # ts"
    by (simp only: regex_split ms.simps(5))
  from first_concat_map [OF this] obtain as x bs zs where
    e: "ms (Star ANSI_ESC_SEQ_RE_DEF) (line, Map.empty) = as @ x # bs"
    and x2: "ms PAT_LEVEL x = t # zs"
    by blast
  have "x \<in> set (as @ x # bs)" by simp
  then have x: "x \<in> set (ms (Star ANSI_ESC_SEQ_RE_DEF) (line, Map.empty))"
    by (simp only: e)
  from ansi_star_keeps [OF x] have sx: "snd x = Map.empty" by simp
  from ansi_star_sound [OF x] obtain a where a: "line = a @ fst x" "ansi_run a" by blast
  from x2 sx have lv: "ms PAT_LEVEL (fst x, Map.empty) = t # zs"
    by (metis prod.collapse)
  then have "ms PAT_LEVEL (fst x, Map.empty) \<noteq> []" by simp
  from pat_level_shape [OF this] obtain l body where
    l: "fst x = l # CHR ''/'' # body" "in_cls [(CHR ''A'', CHR ''Z'')] l" by blast
  with lv have "ms PAT_TAG (body, Map.empty) = t # zs" by (simp only: pat_level_at if_True)
  from pat_tag_first_nosep [OF this] obtain tg p post where
    p: "body = tg @ '': '' @ p @ post" "CHR 0x0A \<notin> set tg" "\<not> has_sep tg" "CHR 0x1B \<notin> set p"
       "CHR 0x0A \<notin> set p" "lookok post" "snd t = [''tag'' \<mapsto> tg, ''content'' \<mapsto> p]"
    by blast
  from a(1) l(1) p(1) have "line = a @ l # CHR ''/'' # tg @ '': '' @ p @ post" by simp
  with a(2) l(2) p t(2) show ?thesis by blast
qed

lemma match_iff_shape: "(re_match ANDROID_LOG_PREFIX_REGEX line \<noteq> None) = log_shape line"
proof
  assume "re_match ANDROID_LOG_PREFIX_REGEX line \<noteq> None"
  then obtain g where "re_match ANDROID_LOG_PREFIX_REGEX line = Some g" by blast
  from match_canonical [OF this] show "log_shape line" unfolding log_shape_def by blast
next
  assume "log_shape line"
  then show "re_match ANDROID_LOG_PREFIX_REGEX line \<noteq> None" by (rule shape_match)
qed

section \<open>The log line classifier\<close>

lemma classify_of_match:
  "re_match ANDROID_LOG_PREFIX_REGEX line = Some [''tag'' \<mapsto> tg, ''content'' \<mapsto> p] \<Longrightarrow>
     android_log_clean_filter line = (p, tg = ''python.stdout'' \<or> tg = ''python.stderr'')"
  by (simp add: android_log_clean_filter_def)

lemma classify_shape:
  assumes "ansi_run pre" "in_cls [(CHR ''A'', CHR ''Z'')] l" "\<not> has_sep tg" "CHR 0x0A \<notin> set tg"
    "CHR 0x1B \<notin> set p" "CHR 0x0A \<notin> set p" "lookok post"
  shows "android_log_clean_filter (pre @ l # CHR ''/'' # tg @ '': '' @ p @ post)
           = (p, tg = ''python.stdout'' \<or> tg = ''python.stderr'')"
  using shape_exact [OF assms] by (rule classify_of_match)

lemma no_shape_no_match: "\<not> log_shape line \<Longrightarrow> re_match ANDROID_LOG_PREFIX_REGEX line = None"
  using match_iff_shape [of line] by simp

text \<open>
  Claim C3. A raw log line of the form \<open>[ANSI]* LEVEL/TAG: CONTENT [ANSI]*\<close> is a run of
  escape sequences, an uppercase letter, a slash, a tag that holds no separator \<open>: \<close> and
  no newline, the separator, a content that holds no escape character and no newline, and
  a run of escape sequences. On every such line \<open>android_log_clean_filter\<close> returns the
  content, and the inclusion flag is true exactly when the tag is \<open>python.stdout\<close> or
  \<open>python.stderr\<close>. The lines of the end-to-end scenarios A and C classify to
  \<open>Hello world\<close> and \<open>oops\<close>, both included.
\<close>

theorem classify_tagged_line:
  "(ansi_run pre \<and> in_cls [(CHR ''A'', CHR ''Z'')] l \<and> \<not> has_sep tag \<and> CHR 0x0A \<notin> set tag
      \<and> CHR 0x1B \<notin> set content \<and> CHR 0x0A \<notin> set content \<and> ansi_run post \<longrightarrow>
      android_log_clean_filter (pre @ l # CHR ''/'' # tag @ '': '' @ content @ post)
        = (content, tag = ''python.stdout'' \<or> tag = ''python.stderr''))
   \<and> android_log_clean_filter ''I/python.stdout: Hello world'' = (''Hello world'', True)
   \<and> android_log_clean_filter (CHR 0x1B # ''[32mI/python.stderr: oops'' @ CHR 0x1B # ''[0m'')
       = (''oops'', True)"
proof (intro conjI impI)
  assume a: "ansi_run pre \<and> in_cls [(CHR ''A'', CHR ''Z'')] l \<and> \<not> has_sep tag \<and> CHR 0x0A \<notin> set tag
      \<and> CHR 0x1B \<notin> set content \<and> CHR 0x0A \<notin> set content \<and> ansi_run post"
  then have "lookok post" using ansi_run_look [of post] by (auto simp: lookok_def)
  with a show "android_log_clean_filter (pre @ l # CHR ''/'' # tag @ '': '' @ content @ post)
        = (content, tag = ''python.stdout'' \<or> tag = ''python.stderr'')"
    by (intro classify_shape) simp_all
next
  show "android_log_clean_filter ''I/python.stdout: Hello world'' = (''Hello world'', True)"
    by code_simp
next
  show "android_log_clean_filter (CHR 0x1B # ''[32mI/python.stderr: oops'' @ CHR 0x1B # ''[0m'')
       = (''oops'', True)"
    by code_simp
qed

lemma sgr_is_ansi: "is_ansi (CHR 0x1B # CHR ''['' # ''32'' @ [] @ [CHR ''m''])"
  by (rule is_ansi_csi) (simp_all add: in_cls_def)

lemma reset_is_ansi: "is_ansi (CHR 0x1B # CHR ''['' # ''0'' @ [] @ [CHR ''m''])"
  by (rule is_ansi_csi) (simp_all add: in_cls_def)

theorem classify_tagged_line_witness:
  "ansi_run (CHR 0x1B # ''[32m'') \<and> in_cls [(CHR ''A'', CHR ''Z'')] (CHR ''W'')
   \<and> \<not> has_sep ''ActivityManager'' \<and> CHR 0x0A \<notin> set ''ActivityManager''
   \<and> CHR 0x1B \<notin> set ''Some warning'' \<and> CHR 0x0A \<notin> set ''Some warning''
   \<and> ansi_run (CHR 0x1B # ''[0m'')
   \<and> android_log_clean_filter
        ((CHR 0x1B # ''[32m'') @ CHR ''W'' # CHR ''/'' # ''ActivityManager'' @ '': '' @ ''Some warning''
           @ (CHR 0x1B # ''[0m''))
       = (''Some warning'', False)"
proof -
  have p: "ansi_run (CHR 0x1B # ''[32m'')" using ansi_run_single [OF sgr_is_ansi] by simp
  have q: "ansi_run (CHR 0x1B # ''[0m'')" using ansi_run_single [OF reset_is_ansi] by simp
  have h: "in_cls [(CHR ''A'', CHR ''Z'')] (CHR ''W'')
      \<and> \<not> has_sep ''ActivityManager'' \<and> CHR 0x0A \<notin> set ''ActivityManager''
      \<and> CHR 0x1B \<notin> set ''Some warning'' \<and> CHR 0x0A \<notin> set ''Some warning''"
    by (simp add: in_cls_def)
  from classify_tagged_line [of "CHR 0x1B # ''[32m''" "CHR ''W''" "''ActivityManager''"
      "''Some warning''" "CHR 0x1B # ''[0m''"] p q h
  show ?thesis by simp
qed

text \<open>
  Claim C4. A line that does not have the shape the pattern matches is returned unchanged
  with the inclusion flag false. No line makes the classifier fail: on every line either
  the pattern matches, both groups read by the code are bound and the result is the
  content with the flag computed from the tag, or the pattern does not match and the
  result is the line itself with the flag false.
\<close>

theorem classify_unmatched_line:
  "(\<not> log_shape line \<longrightarrow> android_log_clean_filter line = (line, False))
   \<and> ((\<exists>g t c. log_shape line \<and> re_match ANDROID_LOG_PREFIX_REGEX line = Some g
          \<and> g ''tag'' = Some t \<and> g ''content'' = Some c
          \<and> android_log_clean_filter line = (c, t = ''python.stdout'' \<or> t = ''python.stderr''))
        \<or> (\<not> log_shape line \<and> re_match ANDROID_LOG_PREFIX_REGEX line = None
            \<and> android_log_clean_filter line = (line, False)))"
proof (cases "log_shape line")
  case True
  then obtain g where g: "re_match ANDROID_LOG_PREFIX_REGEX line = Some g"
    using shape_match [of line] by auto
  from match_canonical [OF g] obtain tg p where gp: "g = [''tag'' \<mapsto> tg, ''content'' \<mapsto> p]"
    by blast
  with g have "android_log_clean_filter line = (p, tg = ''python.stdout'' \<or> tg = ''python.stderr'')"
    by (simp add: classify_of_match)
  with True g gp have "log_shape line \<and> re_match ANDROID_LOG_PREFIX_REGEX line = Some g
          \<and> g ''tag'' = Some tg \<and> g ''content'' = Some p
          \<and> android_log_clean_filter line = (p, tg = ''python.stdout'' \<or> tg = ''python.stderr'')"
    by simp
  with True show ?thesis by blast
next
  case False
  from no_shape_no_match [OF False] have "android_log_clean_filter line = (line, False)"
    by (simp add: android_log_clean_filter_def)
  with False no_shape_no_match [OF False] show ?thesis by simp
qed

theorem classify_unmatched_line_witness:
  "\<not> log_shape ''--------- beginning of main''
   \<and> android_log_clean_filter ''--------- beginning of main'' = (''--------- beginning of main'', False)"
proof -
  have "Option.is_none (re_match ANDROID_LOG_PREFIX_REGEX ''--------- beginning of main'')"
    by code_simp
  then have "re_match ANDROID_LOG_PREFIX_REGEX ''--------- beginning of main'' = None"
    by (simp add: Option.is_none_def)
  with match_iff_shape [of "''--------- beginning of main''"]
  have n: "\<not> log_shape ''--------- beginning of main''" by simp
  with classify_unmatched_line [of "''--------- beginning of main''"] show ?thesis by blast
qed

text \<open>
  Claim C5, as stated, fails: a line whose content itself looks like a tagged line is
  classified with the flag false, and classifying the returned content again strips a
  second prefix.
\<close>

theorem classify_twice_counterexample:
  "snd (android_log_clean_filter ''I/foo: I/bar: baz'') = False
   \<and> fst (android_log_clean_filter (fst (android_log_clean_filter ''I/foo: I/bar: baz'')))
       \<noteq> fst (android_log_clean_filter ''I/foo: I/bar: baz'')"
  by code_simp

text \<open>
  Claim C5, amended. A line that does not have the shape the pattern matches is returned
  unchanged with the flag false, and classifying that output again returns it once more.
  In general the returned content is a fixed point of classification exactly when it does
  not itself have that shape.
\<close>

theorem classify_twice:
  "(\<not> log_shape line \<longrightarrow>
      android_log_clean_filter line = (line, False)
      \<and> android_log_clean_filter (fst (android_log_clean_filter line)) = (line, False))
   \<and> (fst (android_log_clean_filter (fst (android_log_clean_filter line)))
         = fst (android_log_clean_filter line))
       = (\<not> log_shape (fst (android_log_clean_filter line)))"
proof (intro conjI impI)
  assume n: "\<not> log_shape line"
  from no_shape_no_match [OF n] show "android_log_clean_filter line = (line, False)"
    by (simp add: android_log_clean_filter_def)
  then show "android_log_clean_filter (fst (android_log_clean_filter line)) = (line, False)"
    by simp
next
  show "(fst (android_log_clean_filter (fst (android_log_clean_filter line)))
         = fst (android_log_clean_filter line))
       = (\<not> log_shape (fst (android_log_clean_filter line)))"
    using fixed_point_iff [of "fst (android_log_clean_filter line)"]
      match_iff_shape [of "fst (android_log_clean_filter line)"]
    by auto
qed

theorem classify_twice_witness:
  "\<not> log_shape ''Some warning''
   \<and> android_log_clean_filter ''Some warning'' = (''Some warning'', False)
   \<and> android_log_clean_filter (fst (android_log_clean_filter ''Some warning'')) = (''Some warning'', False)"
proof -
  have "Option.is_none (re_match ANDROID_LOG_PREFIX_REGEX ''Some warning'')"
    by code_simp
  then have "re_match ANDROID_LOG_PREFIX_REGEX ''Some warning'' = None"
    by (simp add: Option.is_none_def)
  with match_iff_shape [of "''Some warning''"] have "\<not> log_shape ''Some warning''" by simp
  with classify_twice [of "''Some warning''"] show ?thesis
    by blast
qed



end
